theory Spec2Isabelle
  imports Main
begin

section \<open>Python strings\<close>

text \<open>
  A Python \<open>str\<close> is a sequence of Unicode code points, each the integer that
  \<open>ord\<close> gives. \<open>str\<close> turns a string literal into such a sequence.
\<close>

type_synonym pystr = "int list"

definition str :: "string \<Rightarrow> pystr" where
  "str cs = map of_char cs"

text \<open>
  The characters that \<open>str.strip\<close>, \<open>lstrip\<close> and \<open>rstrip\<close> remove when
  called without argument (CPython's \<open>_PyUnicode_IsWhitespace\<close>).
\<close>

definition is_space :: "int \<Rightarrow> bool" where
  "is_space c \<longleftrightarrow>
     (0x09 \<le> c \<and> c \<le> 0x0D) \<or> (0x1C \<le> c \<and> c \<le> 0x20) \<or> c = 0x85 \<or> c = 0xA0 \<or>
     c = 0x1680 \<or> (0x2000 \<le> c \<and> c \<le> 0x200A) \<or> c = 0x2028 \<or> c = 0x2029 \<or>
     c = 0x202F \<or> c = 0x205F \<or> c = 0x3000"

definition lstrip :: "pystr \<Rightarrow> pystr" where
  "lstrip s = dropWhile is_space s"

definition rstrip :: "pystr \<Rightarrow> pystr" where
  "rstrip s = rev (dropWhile is_space (rev s))"

definition strip :: "pystr \<Rightarrow> pystr" where
  "strip s = rstrip (lstrip s)"

definition startswith :: "pystr \<Rightarrow> pystr \<Rightarrow> bool" where
  "startswith s p \<longleftrightarrow> take (length p) s = p"

definition endswith :: "pystr \<Rightarrow> pystr \<Rightarrow> bool" where
  "endswith s p \<longleftrightarrow> length p \<le> length s \<and> drop (length s - length p) s = p"

text \<open>\<open>s.replace(old, new, 1)\<close>: the first occurrence of \<open>old\<close>, wherever it is.\<close>

fun replace1 :: "pystr \<Rightarrow> pystr \<Rightarrow> pystr \<Rightarrow> pystr" where
  "replace1 [] old new = (if old = [] then new else [])"
| "replace1 (c # cs) old new =
     (if startswith (c # cs) old then new @ drop (length old) (c # cs)
      else c # replace1 cs old new)"

text \<open>\<open>s.find(sub)\<close>: the lowest index where \<open>sub\<close> occurs, or \<open>-1\<close>.\<close>

fun find_from :: "pystr \<Rightarrow> pystr \<Rightarrow> int \<Rightarrow> int" where
  "find_from [] sub i = (if sub = [] then i else - 1)"
| "find_from (c # cs) sub i =
     (if startswith (c # cs) sub then i else find_from cs sub (i + 1))"

definition find_str :: "pystr \<Rightarrow> pystr \<Rightarrow> int" where
  "find_str s sub = find_from s sub 0"

text \<open>\<open>s[start:]\<close> and \<open>s[:-n]\<close> for \<open>start \<ge> 0\<close> and \<open>n > 0\<close>.\<close>

definition slice_from :: "pystr \<Rightarrow> int \<Rightarrow> pystr" where
  "slice_from s start = drop (nat start) s"

definition slice_drop_last :: "pystr \<Rightarrow> nat \<Rightarrow> pystr" where
  "slice_drop_last s n = take (length s - n) s"

section \<open>Values and errors\<close>

text \<open>
  A Python value: a \<open>str\<close>, or any other object (\<open>None\<close> included), told
  from the others by a number. \<open>isinstance(v, str)\<close> tells the two kinds apart.
\<close>

datatype pyval = PyStr pystr | PyOther nat

text \<open>
  The exceptions the pipeline raises. \<open>JSONDecodeError\<close> is a subclass of
  \<open>ValueError\<close>; \<open>RecursionError\<close> is what a call raises when the interpreter
  has no stack frame left for it; \<open>OtherError\<close> stands for any other exception a
  library call may raise.
\<close>

datatype error =
    ValueError string
  | JSONDecodeError string
  | AttributeError string
  | OverflowError string
  | RequestError string
  | RecursionError
  | OtherError string

text \<open>
  What \<open>json\<close> decodes to: \<open>None\<close>, \<open>bool\<close>, \<open>int\<close>, \<open>float\<close>, \<open>str\<close>,
  \<open>list\<close> and \<open>dict\<close>. A \<open>dict\<close> keeps its keys in insertion order, so it is a list
  of pairs, built and updated by \<open>dict_set\<close>. The float type is a parameter.
\<close>

datatype 'f json =
    JNull
  | JBool bool
  | JInt int
  | JFloat 'f
  | JString pystr
  | JArray "'f json list"
  | JObject "(pystr \<times> 'f json) list"

text \<open>
  A \<open>float\<close> that the decoder produced: the literal it read (standing for
  \<open>float(literal)\<close>), or one of the three constants.
\<close>

datatype pyfloat = FloatOf pystr | NaN | Infinity | NegInfinity

text \<open>\<open>d[k] = v\<close>: an existing key keeps its place, a new one goes last.\<close>

fun dict_set :: "('k \<times> 'v) list \<Rightarrow> 'k \<Rightarrow> 'v \<Rightarrow> ('k \<times> 'v) list" where
  "dict_set [] k v = [(k, v)]"
| "dict_set ((k', v') # d) k v =
     (if k' = k then (k', v) # d else (k', v') # dict_set d k v)"

fun is_str :: "'f json \<Rightarrow> bool" where
  "is_str (JString s) = True"
| "is_str _ = False"

fun the_str :: "'f json \<Rightarrow> pystr" where
  "the_str (JString s) = s"
| "the_str _ = []"

section \<open>URL normalisation and link sanitisation\<close>

text \<open>The list of \<open>_normalize_url\<close>: \<open>) ] . , ; " '\<close>.\<close>

definition url_trailing :: "int list" where
  "url_trailing = [0x29, 0x5D, 0x2E, 0x2C, 0x3B, 0x22, 0x27]"

text \<open>\<^verbatim>\<open>while u and u[-1] in [...]: u = u[:-1]\<close>\<close>

function strip_trailing :: "pystr \<Rightarrow> pystr" where
  "strip_trailing u =
     (if u \<noteq> [] \<and> last u \<in> set url_trailing then strip_trailing (butlast u) else u)"
  by pat_completeness auto
termination
  by (relation "measure length") auto

declare strip_trailing.simps [simp del]

text \<open>
  \<open>_normalize_url(u)\<close>. \<open>None\<close> is the absent argument: \<open>u or ""\<close> maps it, and the
  empty string, to the empty string.
\<close>

definition normalize_url :: "pystr option \<Rightarrow> pystr" where
  "normalize_url u =
     (let u1 = strip (case u of None \<Rightarrow> [] | Some s \<Rightarrow> if s = [] then [] else s);
          u2 = strip_trailing u1
      in strip u2)"

text \<open>
  The specification's words for \<open>normalize_url\<close>: trim, drop the longest trailing run
  of the listed characters, trim again.
\<close>

definition spec_normalize_url :: "pystr option \<Rightarrow> pystr" where
  "spec_normalize_url u =
     strip (rev (dropWhile (\<lambda>c. c \<in> set url_trailing)
       (rev (strip (case u of None \<Rightarrow> [] | Some s \<Rightarrow> s)))))"

text \<open>
  The value that \<open>_sanitize_links(obj)\<close> returns. For a \<open>dict\<close> the loop runs over
  the snapshot \<open>list(obj.items())\<close> and assigns into \<open>obj\<close> itself:
  \<open>sanitize_items items obj\<close> is the loop with \<open>items\<close> still to visit. Whether the
  call returns at all is the matter of \<open>sanitize_links_call\<close> below.
\<close>

fun sanitize_links :: "'f json \<Rightarrow> 'f json"
  and sanitize_items :: "(pystr \<times> 'f json) list \<Rightarrow> (pystr \<times> 'f json) list \<Rightarrow> (pystr \<times> 'f json) list"
  and sanitize_list :: "'f json list \<Rightarrow> 'f json list"
where
  "sanitize_links (JObject obj) = JObject (sanitize_items obj obj)"
| "sanitize_links (JArray xs) = JArray (sanitize_list xs)"
| "sanitize_links JNull = JNull"
| "sanitize_links (JBool b) = JBool b"
| "sanitize_links (JInt i) = JInt i"
| "sanitize_links (JFloat f) = JFloat f"
| "sanitize_links (JString s) = JString s"
| "sanitize_items [] obj = obj"
| "sanitize_items ((k, v) # items) obj =
     sanitize_items items
       (dict_set obj k
          (if k = str ''url'' \<and> is_str v then JString (normalize_url (Some (the_str v)))
           else sanitize_links v))"
| "sanitize_list [] = []"
| "sanitize_list (x # xs) = sanitize_links x # sanitize_list xs"

text \<open>
  \<open>_sanitize_links(obj)\<close> as the interpreter runs it, with \<open>frames\<close> stack frames
  left before the recursion limit. Every call of \<open>_sanitize_links\<close> and of
  \<open>_normalize_url\<close> takes one frame, and a call with none left raises
  \<open>RecursionError\<close>, which ends the walk (a list comprehension is taken to run in
  the frame of its function, as it does from Python 3.12 on). The first argument of
  \<open>sanitize_items_call\<close> and \<open>sanitize_list_call\<close> counts the frames left inside the
  body of the function.
\<close>

fun sanitize_links_call :: "nat \<Rightarrow> 'f json \<Rightarrow> error + 'f json"
  and sanitize_items_call ::
    "nat \<Rightarrow> (pystr \<times> 'f json) list \<Rightarrow> (pystr \<times> 'f json) list \<Rightarrow>
     error + (pystr \<times> 'f json) list"
  and sanitize_list_call :: "nat \<Rightarrow> 'f json list \<Rightarrow> error + 'f json list"
where
  "sanitize_links_call 0 obj = Inl RecursionError"
| "sanitize_links_call (Suc n) (JObject obj) =
     (case sanitize_items_call n obj obj of Inl e \<Rightarrow> Inl e | Inr d \<Rightarrow> Inr (JObject d))"
| "sanitize_links_call (Suc n) (JArray xs) =
     (case sanitize_list_call n xs of Inl e \<Rightarrow> Inl e | Inr ys \<Rightarrow> Inr (JArray ys))"
| "sanitize_links_call (Suc n) JNull = Inr JNull"
| "sanitize_links_call (Suc n) (JBool b) = Inr (JBool b)"
| "sanitize_links_call (Suc n) (JInt i) = Inr (JInt i)"
| "sanitize_links_call (Suc n) (JFloat f) = Inr (JFloat f)"
| "sanitize_links_call (Suc n) (JString s) = Inr (JString s)"
| "sanitize_items_call n [] obj = Inr obj"
| "sanitize_items_call n ((k, v) # items) obj =
     (case (if k = str ''url'' \<and> is_str v
            then (if n = 0 then Inl RecursionError
                  else Inr (JString (normalize_url (Some (the_str v)))))
            else sanitize_links_call n v) of
        Inl e \<Rightarrow> Inl e
      | Inr v' \<Rightarrow> sanitize_items_call n items (dict_set obj k v'))"
| "sanitize_list_call n [] = Inr []"
| "sanitize_list_call n (x # xs) =
     (case sanitize_links_call n x of
        Inl e \<Rightarrow> Inl e
      | Inr y \<Rightarrow>
          (case sanitize_list_call n xs of Inl e \<Rightarrow> Inl e | Inr ys \<Rightarrow> Inr (y # ys)))"

text \<open>
  The stack frames that the walk of a value takes: one for each level of nesting,
  the call of \<open>_normalize_url\<close> being one level below its dictionary.
\<close>

fun frames_needed :: "'f json \<Rightarrow> nat"
  and frames_needed_items :: "(pystr \<times> 'f json) list \<Rightarrow> nat"
  and frames_needed_list :: "'f json list \<Rightarrow> nat"
where
  "frames_needed (JObject obj) = Suc (frames_needed_items obj)"
| "frames_needed (JArray xs) = Suc (frames_needed_list xs)"
| "frames_needed JNull = 1"
| "frames_needed (JBool b) = 1"
| "frames_needed (JInt i) = 1"
| "frames_needed (JFloat f) = 1"
| "frames_needed (JString s) = 1"
| "frames_needed_items [] = 0"
| "frames_needed_items ((k, v) # items) = max (frames_needed v) (frames_needed_items items)"
| "frames_needed_list [] = 0"
| "frames_needed_list (x # xs) = max (frames_needed x) (frames_needed_list xs)"

text \<open>What one round of the loop stores for the item \<open>(k, v)\<close>.\<close>

definition sanitize_entry :: "pystr \<times> 'f json \<Rightarrow> pystr \<times> 'f json" where
  "sanitize_entry kv =
     (fst kv,
      if fst kv = str ''url'' \<and> is_str (snd kv)
      then JString (normalize_url (Some (the_str (snd kv))))
      else sanitize_links (snd kv))"

text \<open>
  The strings stored under a key equal to \<open>url\<close>, at any depth, in the order the walk
  of \<open>_sanitize_links\<close> meets them.
\<close>

fun url_strings :: "'f json \<Rightarrow> pystr list"
  and url_strings_items :: "(pystr \<times> 'f json) list \<Rightarrow> pystr list"
  and url_strings_list :: "'f json list \<Rightarrow> pystr list"
where
  "url_strings (JObject obj) = url_strings_items obj"
| "url_strings (JArray xs) = url_strings_list xs"
| "url_strings JNull = []"
| "url_strings (JBool b) = []"
| "url_strings (JInt i) = []"
| "url_strings (JFloat f) = []"
| "url_strings (JString s) = []"
| "url_strings_items [] = []"
| "url_strings_items ((k, v) # kvs) =
     (if k = str ''url'' \<and> is_str v then [the_str v] else url_strings v) @ url_strings_items kvs"
| "url_strings_list [] = []"
| "url_strings_list (x # xs) = url_strings x @ url_strings_list xs"

text \<open>A \<open>dict\<close> has no key twice; \<open>is_dicts\<close> says so of every dictionary in a value.\<close>

fun is_dicts :: "'f json \<Rightarrow> bool"
  and is_dicts_items :: "(pystr \<times> 'f json) list \<Rightarrow> bool"
  and is_dicts_list :: "'f json list \<Rightarrow> bool"
where
  "is_dicts (JObject obj) \<longleftrightarrow> distinct (map fst obj) \<and> is_dicts_items obj"
| "is_dicts (JArray xs) \<longleftrightarrow> is_dicts_list xs"
| "is_dicts JNull \<longleftrightarrow> True"
| "is_dicts (JBool b) \<longleftrightarrow> True"
| "is_dicts (JInt i) \<longleftrightarrow> True"
| "is_dicts (JFloat f) \<longleftrightarrow> True"
| "is_dicts (JString s) \<longleftrightarrow> True"
| "is_dicts_items [] \<longleftrightarrow> True"
| "is_dicts_items ((k, v) # kvs) \<longleftrightarrow> is_dicts v \<and> is_dicts_items kvs"
| "is_dicts_list [] \<longleftrightarrow> True"
| "is_dicts_list (x # xs) \<longleftrightarrow> is_dicts x \<and> is_dicts_list xs"

text \<open>
  A url whose trailing punctuation run, once removed from the trimmed text, leaves no
  white space at the end.
\<close>

definition punct_run_closed :: "pystr \<Rightarrow> bool" where
  "punct_run_closed u \<longleftrightarrow>
     (let t = strip_trailing (strip u) in t = [] \<or> \<not> is_space (last t))"

section \<open>The \<open>json\<close> module\<close>

text \<open>
  \<open>json.JSONDecoder().raw_decode\<close> and \<open>json.dumps\<close> belong to Python's standard
  library. The functions of the repository take them as the parameters \<open>raw_decode\<close>
  and \<open>dumps\<close>, so what is proved of those functions holds whatever the library does
  (the interpreter's recursion limit and its limit on the digits of an \<open>int\<close>
  included). This section models the two library calls after CPython's \<open>json\<close>
  package, for the inputs on which the functions are evaluated.
\<close>

definition is_json_ws :: "int \<Rightarrow> bool" where
  "is_json_ws c \<longleftrightarrow> c = 0x20 \<or> c = 0x09 \<or> c = 0x0A \<or> c = 0x0D"

definition skip_ws :: "pystr \<Rightarrow> pystr" where
  "skip_ws s = dropWhile is_json_ws s"

definition is_digit :: "int \<Rightarrow> bool" where
  "is_digit c \<longleftrightarrow> 0x30 \<le> c \<and> c \<le> 0x39"

definition hex_value :: "int \<Rightarrow> int option" where
  "hex_value c =
     (if 0x30 \<le> c \<and> c \<le> 0x39 then Some (c - 0x30)
      else if 0x41 \<le> c \<and> c \<le> 0x46 then Some (c - 0x41 + 10)
      else if 0x61 \<le> c \<and> c \<le> 0x66 then Some (c - 0x61 + 10)
      else None)"

text \<open>The four hexadecimal digits of a \<open>\uXXXX\<close> escape.\<close>

definition decode_uXXXX :: "int \<Rightarrow> int \<Rightarrow> int \<Rightarrow> int \<Rightarrow> int option" where
  "decode_uXXXX a b c d =
     (case (hex_value a, hex_value b, hex_value c, hex_value d) of
        (Some x, Some y, Some z, Some w) \<Rightarrow> Some (((x * 16 + y) * 16 + z) * 16 + w)
      | _ \<Rightarrow> None)"

text \<open>The table \<open>BACKSLASH\<close> of the one-letter escapes.\<close>

definition backslash :: "int \<Rightarrow> int option" where
  "backslash e =
     (if e = 0x22 then Some 0x22 else if e = 0x5C then Some 0x5C
      else if e = 0x2F then Some 0x2F else if e = 0x62 then Some 0x08
      else if e = 0x66 then Some 0x0C else if e = 0x6E then Some 0x0A
      else if e = 0x72 then Some 0x0D else if e = 0x74 then Some 0x09
      else None)"

text \<open>The code point of the four hexadecimal digits at the start of the text.\<close>

definition read_uXXXX :: "pystr \<Rightarrow> int option" where
  "read_uXXXX s = (case s of a # b # c # d # _ \<Rightarrow> decode_uXXXX a b c d | _ \<Rightarrow> None)"

text \<open>
  One escape of \<open>scanstring\<close>, from the character after the backslash: the character
  it stands for and how many characters of the text it takes. A high surrogate
  followed by an escaped low surrogate is one character.
\<close>

definition scan_escape :: "pystr \<Rightarrow> error + (int \<times> nat)" where
  "scan_escape s =
     (case s of
        [] \<Rightarrow> Inl (JSONDecodeError ''Unterminated string starting at'')
      | esc # r \<Rightarrow>
          if esc \<noteq> 0x75 then
            (case backslash esc of
               None \<Rightarrow> Inl (JSONDecodeError ''Invalid escape'')
             | Some ch \<Rightarrow> Inr (ch, 1))
          else
            (case read_uXXXX r of
               None \<Rightarrow> Inl (JSONDecodeError ''Invalid uXXXX escape'')
             | Some uni \<Rightarrow>
                 if 0xD800 \<le> uni \<and> uni \<le> 0xDBFF \<and> startswith (drop 4 r) [0x5C, 0x75] then
                   (case read_uXXXX (drop 6 r) of
                      None \<Rightarrow> Inl (JSONDecodeError ''Invalid uXXXX escape'')
                    | Some uni2 \<Rightarrow>
                        if 0xDC00 \<le> uni2 \<and> uni2 \<le> 0xDFFF
                        then Inr (0x10000 + ((uni - 0xD800) * 0x400 + (uni2 - 0xDC00)), 11)
                        else Inr (uni, 5))
                 else Inr (uni, 5)))"

text \<open>
  \<open>scanstring\<close> in strict mode, from the character after the opening quote: the
  decoded string and the text after the closing quote. \<open>acc\<close> holds what is decoded
  so far.
\<close>

fun scanstring :: "pystr \<Rightarrow> pystr \<Rightarrow> error + (pystr \<times> pystr)" where
  "scanstring [] acc = Inl (JSONDecodeError ''Unterminated string starting at'')"
| "scanstring (c # cs) acc =
     (if c = 0x22 then Inr (acc, cs)
      else if c = 0x5C then
        (case scan_escape cs of
           Inl e \<Rightarrow> Inl e
         | Inr (ch, n) \<Rightarrow> scanstring (drop n cs) (acc @ [ch]))
      else if c \<le> 0x1F then Inl (JSONDecodeError ''Invalid control character at'')
      else scanstring cs (acc @ [c]))"

text \<open>
  \<open>NUMBER_RE\<close>, matched at the start of the text: the integer part, the fraction and
  the exponent (each empty when absent), and the text after the match.
\<close>

definition match_exponent :: "pystr \<Rightarrow> pystr \<times> pystr" where
  "match_exponent s =
     (case s of
        [] \<Rightarrow> ([], s)
      | e # r \<Rightarrow>
          if e = 0x65 \<or> e = 0x45 then
            (let sgn = (case r of [] \<Rightarrow> [] | g # _ \<Rightarrow> if g = 0x2B \<or> g = 0x2D then [g] else []);
                 r' = drop (length sgn) r
             in if r' \<noteq> [] \<and> is_digit (hd r')
                then (e # sgn @ takeWhile is_digit r', dropWhile is_digit r')
                else ([], s))
          else ([], s))"

definition match_fraction :: "pystr \<Rightarrow> pystr \<times> pystr" where
  "match_fraction s =
     (case s of
        p # f # r \<Rightarrow>
          if p = 0x2E \<and> is_digit f
          then (p # takeWhile is_digit (f # r), dropWhile is_digit (f # r))
          else ([], s)
      | _ \<Rightarrow> ([], s))"

definition match_integer :: "pystr \<Rightarrow> (pystr \<times> pystr) option" where
  "match_integer s =
     (let sgn = (case s of [] \<Rightarrow> [] | g # _ \<Rightarrow> if g = 0x2D then [g] else []);
          r = drop (length sgn) s
      in case r of
           [] \<Rightarrow> None
         | d # ds \<Rightarrow>
             if d = 0x30 then Some (sgn @ [d], ds)
             else if 0x31 \<le> d \<and> d \<le> 0x39
             then Some (sgn @ d # takeWhile is_digit ds, dropWhile is_digit ds)
             else None)"

definition match_number :: "pystr \<Rightarrow> (pystr \<times> pystr \<times> pystr \<times> pystr) option" where
  "match_number s =
     (case match_integer s of
        None \<Rightarrow> None
      | Some (integer, r1) \<Rightarrow>
          (let (frac, r2) = match_fraction r1; (exp, r3) = match_exponent r2
           in Some (integer, frac, exp, r3)))"

text \<open>\<open>int(integer)\<close> for a literal that \<open>NUMBER_RE\<close> matched.\<close>

definition parse_int :: "pystr \<Rightarrow> int" where
  "parse_int s =
     (if s \<noteq> [] \<and> hd s = 0x2D then - fold (\<lambda>d n. n * 10 + (d - 0x30)) (tl s) 0
      else fold (\<lambda>d n. n * 10 + (d - 0x30)) s 0)"

text \<open>\<open>dict(pairs)\<close>: a later pair with the same key replaces the value of the earlier.\<close>

definition dict_of_pairs :: "('k \<times> 'v) list \<Rightarrow> ('k \<times> 'v) list" where
  "dict_of_pairs pairs = fold (\<lambda>kv d. dict_set d (fst kv) (snd kv)) pairs []"

text \<open>
  The branches of \<open>scan_once\<close> for a value that is no string, object or array: the
  three literals, a number, the three constants.
\<close>

definition scan_atom :: "pystr \<Rightarrow> error + (pyfloat json \<times> pystr)" where
  "scan_atom s =
     (if startswith s (str ''null'') then Inr (JNull, drop 4 s)
      else if startswith s (str ''true'') then Inr (JBool True, drop 4 s)
      else if startswith s (str ''false'') then Inr (JBool False, drop 5 s)
      else
        (case match_number s of
           Some (integer, frac, exp, r) \<Rightarrow>
             if frac \<noteq> [] \<or> exp \<noteq> [] then Inr (JFloat (FloatOf (integer @ frac @ exp)), r)
             else Inr (JInt (parse_int integer), r)
         | None \<Rightarrow>
             if startswith s (str ''NaN'') then Inr (JFloat NaN, drop 3 s)
             else if startswith s (str ''Infinity'') then Inr (JFloat Infinity, drop 8 s)
             else if startswith s (str ''-Infinity'') then Inr (JFloat NegInfinity, drop 9 s)
             else Inl (JSONDecodeError ''Expecting value'')))"

text \<open>
  The steps of \<open>JSONObject\<close> and \<open>JSONArray\<close> between two values. \<open>object_start\<close>
  and \<open>array_start\<close> read what follows the opening bracket: \<open>None\<close> for the empty
  container, or the text where the first key (after its quote) or item starts.
  \<open>member_key\<close> reads a key and its colon. \<open>after_member\<close> and \<open>after_item\<close> read
  what follows a value: \<open>True\<close> with the text of the next key or item, \<open>False\<close>
  with the text after the closing bracket.
\<close>

definition object_start :: "pystr \<Rightarrow> error + (pystr option \<times> pystr)" where
  "object_start s =
     (case skip_ws s of
        [] \<Rightarrow> Inl (JSONDecodeError ''Expecting property name enclosed in double quotes'')
      | d # ds \<Rightarrow>
          if d = 0x7D then Inr (None, ds)
          else if d = 0x22 then Inr (Some ds, ds)
          else Inl (JSONDecodeError ''Expecting property name enclosed in double quotes''))"

definition array_start :: "pystr \<Rightarrow> pystr option \<times> pystr" where
  "array_start s =
     (case skip_ws s of
        [] \<Rightarrow> (Some [], [])
      | d # ds \<Rightarrow> if d = 0x5D then (None, ds) else (Some (d # ds), d # ds))"

definition member_key :: "pystr \<Rightarrow> error + (pystr \<times> pystr)" where
  "member_key s =
     (case scanstring s [] of
        Inl e \<Rightarrow> Inl e
      | Inr (key, r1) \<Rightarrow>
          (case skip_ws r1 of
             [] \<Rightarrow> Inl (JSONDecodeError ''Expecting : delimiter'')
           | c # r2 \<Rightarrow>
               if c \<noteq> 0x3A then Inl (JSONDecodeError ''Expecting : delimiter'')
               else Inr (key, skip_ws r2)))"

definition after_member :: "pystr \<Rightarrow> error + (bool \<times> pystr)" where
  "after_member s =
     (case skip_ws s of
        [] \<Rightarrow> Inl (JSONDecodeError ''Expecting , delimiter'')
      | d # r \<Rightarrow>
          if d = 0x7D then Inr (False, r)
          else if d \<noteq> 0x2C then Inl (JSONDecodeError ''Expecting , delimiter'')
          else
            (case skip_ws r of
               [] \<Rightarrow> Inl (JSONDecodeError ''Expecting property name enclosed in double quotes'')
             | q # r' \<Rightarrow>
                 if q = 0x22 then Inr (True, r')
                 else Inl (JSONDecodeError ''Expecting property name enclosed in double quotes'')))"

definition after_item :: "pystr \<Rightarrow> error + (bool \<times> pystr)" where
  "after_item s =
     (case skip_ws s of
        [] \<Rightarrow> Inl (JSONDecodeError ''Expecting , delimiter'')
      | d # r \<Rightarrow>
          if d = 0x5D then Inr (False, r)
          else if d \<noteq> 0x2C then Inl (JSONDecodeError ''Expecting , delimiter'')
          else Inr (True, skip_ws r))"

text \<open>
  \<open>scan_once\<close>, with the loops of \<open>JSONObject\<close> (\<open>parse_members\<close>, from the character
  after the opening quote of a key) and of \<open>JSONArray\<close> (\<open>parse_items\<close>, from the start
  of an item). Each returns the value and the text after it. The first argument
  bounds the number of calls still allowed.
\<close>

fun scan_once :: "nat \<Rightarrow> pystr \<Rightarrow> error + (pyfloat json \<times> pystr)"
  and parse_members :: "nat \<Rightarrow> pystr \<Rightarrow> (pystr \<times> pyfloat json) list \<Rightarrow> error + (pyfloat json \<times> pystr)"
  and parse_items :: "nat \<Rightarrow> pystr \<Rightarrow> pyfloat json list \<Rightarrow> error + (pyfloat json \<times> pystr)"
where
  "scan_once 0 s = Inl (OtherError ''out of fuel'')"
| "scan_once (Suc n) [] = Inl (JSONDecodeError ''Expecting value'')"
| "scan_once (Suc n) (c # cs) =
     (if c = 0x22 then
        (case scanstring cs [] of Inl e \<Rightarrow> Inl e | Inr (t, r) \<Rightarrow> Inr (JString t, r))
      else if c = 0x7B then
        (case object_start cs of
           Inl e \<Rightarrow> Inl e
         | Inr (None, r) \<Rightarrow> Inr (JObject [], r)
         | Inr (Some k, r) \<Rightarrow> parse_members n k [])
      else if c = 0x5B then
        (case array_start cs of
           (None, r) \<Rightarrow> Inr (JArray [], r)
         | (Some i, r) \<Rightarrow> parse_items n i [])
      else scan_atom (c # cs))"
| "parse_members 0 s pairs = Inl (OtherError ''out of fuel'')"
| "parse_members (Suc n) s pairs =
     (case member_key s of
        Inl e \<Rightarrow> Inl e
      | Inr (key, r1) \<Rightarrow>
          (case scan_once n r1 of
             Inl e \<Rightarrow> Inl e
           | Inr (v, r2) \<Rightarrow>
               (case after_member r2 of
                  Inl e \<Rightarrow> Inl e
                | Inr (again, r3) \<Rightarrow>
                    if again then parse_members n r3 (pairs @ [(key, v)])
                    else Inr (JObject (dict_of_pairs (pairs @ [(key, v)])), r3))))"
| "parse_items 0 s values = Inl (OtherError ''out of fuel'')"
| "parse_items (Suc n) s values =
     (case scan_once n s of
        Inl e \<Rightarrow> Inl e
      | Inr (v, r1) \<Rightarrow>
          (case after_item r1 of
             Inl e \<Rightarrow> Inl e
           | Inr (again, r2) \<Rightarrow>
               if again then parse_items n r2 (values @ [v])
               else Inr (JArray (values @ [v]), r2)))"

text \<open>
  \<open>raw_decode(s)\<close>: the value and the index where it ends. The calls allowed are
  more than any text uses (\<open>json_raw_decode_total\<close> below).
\<close>

definition json_raw_decode :: "pystr \<Rightarrow> error + (pyfloat json \<times> nat)" where
  "json_raw_decode s =
     (case scan_once (2 * length s + 2) s of
        Inl e \<Rightarrow> Inl e
      | Inr (obj, r) \<Rightarrow> Inr (obj, length s - length r))"

text \<open>The digits of \<open>int.__repr__\<close>.\<close>

function dec_digits :: "nat \<Rightarrow> pystr" where
  "dec_digits n =
     (if n < 10 then [0x30 + int n] else dec_digits (n div 10) @ [0x30 + int (n mod 10)])"
  by pat_completeness auto
termination
  by (relation "measure id") auto

declare dec_digits.simps [simp del]

definition int_repr :: "int \<Rightarrow> pystr" where
  "int_repr i = (if i < 0 then 0x2D # dec_digits (nat (- i)) else dec_digits (nat i))"

text \<open>\<open>encode_basestring\<close>: the escapes of \<open>ESCAPE_DCT\<close>, every other character as it is.\<close>

definition hex_digit :: "int \<Rightarrow> int" where
  "hex_digit d = (if d < 10 then 0x30 + d else 0x61 + (d - 10))"

definition escape_char :: "int \<Rightarrow> pystr" where
  "escape_char c =
     (if c = 0x5C then [0x5C, 0x5C] else if c = 0x22 then [0x5C, 0x22]
      else if c = 0x08 then [0x5C, 0x62] else if c = 0x0C then [0x5C, 0x66]
      else if c = 0x0A then [0x5C, 0x6E] else if c = 0x0D then [0x5C, 0x72]
      else if c = 0x09 then [0x5C, 0x74]
      else if 0 \<le> c \<and> c \<le> 0x1F
      then [0x5C, 0x75, 0x30, 0x30, hex_digit (c div 16), hex_digit (c mod 16)]
      else [c])"

definition encode_basestring :: "pystr \<Rightarrow> pystr" where
  "encode_basestring s = 0x22 # concat (map escape_char s) @ [0x22]"

text \<open>
  \<open>json.dumps(obj, ensure_ascii=False, separators=(",", ":"))\<close> on a decoded value.
  \<open>float_repr\<close> gives the text that \<open>float.__repr__\<close> prints for the float read from
  a literal; floating point itself is not modelled.
\<close>

fun json_dumps :: "(pystr \<Rightarrow> pystr) \<Rightarrow> pyfloat json \<Rightarrow> pystr"
  and dumps_items :: "(pystr \<Rightarrow> pystr) \<Rightarrow> (pystr \<times> pyfloat json) list \<Rightarrow> pystr"
  and dumps_list :: "(pystr \<Rightarrow> pystr) \<Rightarrow> pyfloat json list \<Rightarrow> pystr"
where
  "json_dumps float_repr JNull = str ''null''"
| "json_dumps float_repr (JBool b) = (if b then str ''true'' else str ''false'')"
| "json_dumps float_repr (JInt i) = int_repr i"
| "json_dumps float_repr (JFloat f) =
     (case f of FloatOf l \<Rightarrow> float_repr l | NaN \<Rightarrow> str ''NaN''
      | Infinity \<Rightarrow> str ''Infinity'' | NegInfinity \<Rightarrow> str ''-Infinity'')"
| "json_dumps float_repr (JString s) = encode_basestring s"
| "json_dumps float_repr (JArray xs) = 0x5B # dumps_list float_repr xs @ [0x5D]"
| "json_dumps float_repr (JObject kvs) = 0x7B # dumps_items float_repr kvs @ [0x7D]"
| "dumps_items float_repr [] = []"
| "dumps_items float_repr ((k, v) # kvs) =
     encode_basestring k @ 0x3A # json_dumps float_repr v @
     (if kvs = [] then [] else 0x2C # dumps_items float_repr kvs)"
| "dumps_list float_repr [] = []"
| "dumps_list float_repr (x # xs) =
     json_dumps float_repr x @ (if xs = [] then [] else 0x2C # dumps_list float_repr xs)"

definition json_dumps_compact :: "(pystr \<Rightarrow> pystr) \<Rightarrow> pyfloat json \<Rightarrow> error + pystr" where
  "json_dumps_compact float_repr obj = Inr (json_dumps float_repr obj)"

section \<open>Extraction and sanitisation of agent output\<close>

definition fence :: pystr where
  "fence = str ''```''"

text \<open>
  Lines 41 to 49 of \<open>_extract_first_json_value\<close>: \<open>strip\<close>, then the leading and the
  trailing fence.
\<close>

definition strip_fences :: "pystr \<Rightarrow> pystr" where
  "strip_fences text =
     (let s = strip text;
          s = (if startswith s fence
               then lstrip (drop 3 (replace1 s (str ''```json'') fence))
               else s);
          s = (if endswith s fence then rstrip (slice_drop_last s 3) else s)
      in s)"

text \<open>
  \<open>_extract_first_json_value(text)\<close>, with the library's \<open>raw_decode\<close> as a parameter.
\<close>

definition extract_first_json_value ::
  "(pystr \<Rightarrow> error + ('f json \<times> nat)) \<Rightarrow> pyval \<Rightarrow> error + 'f json" where
  "extract_first_json_value raw_decode text =
     (case text of
        PyOther x \<Rightarrow> Inl (ValueError ''empty/non-string text'')
      | PyStr t \<Rightarrow>
          if t = [] then Inl (ValueError ''empty/non-string text'')
          else
            (let s = strip_fences t;
                 first_curly = find_str s (str ''{'');
                 first_square = find_str s (str ''['');
                 starts = filter (\<lambda>p. p \<noteq> - 1) [first_curly, first_square]
             in if starts = [] then Inl (ValueError ''no JSON start found'')
                else
                  (let start = fold min (tl starts) (hd starts);
                       s = slice_from s start
                   in case raw_decode s of
                        Inl e \<Rightarrow> Inl e
                      | Inr (obj, _) \<Rightarrow> Inr obj)))"

text \<open>
  The body of the \<open>try\<close> in \<open>sanitize_json_str\<close>, with \<open>json.dumps\<close> (called with
  \<open>ensure_ascii=False\<close> and the compact separators) as the parameter \<open>dumps\<close>, and
  with the stack frames left for the call of \<open>_sanitize_links\<close> as \<open>frames\<close>.
\<close>

definition sanitize_attempt ::
  "(pystr \<Rightarrow> error + ('f json \<times> nat)) \<Rightarrow> ('f json \<Rightarrow> error + pystr) \<Rightarrow> nat \<Rightarrow>
   pyval \<Rightarrow> error + pystr" where
  "sanitize_attempt raw_decode dumps frames raw =
     (case extract_first_json_value raw_decode raw of
        Inl e \<Rightarrow> Inl e
      | Inr obj \<Rightarrow>
          (case sanitize_links_call frames obj of
             Inl e \<Rightarrow> Inl e
           | Inr obj' \<Rightarrow> dumps obj'))"

text \<open>\<open>sanitize_json_str(raw)\<close>: \<open>except Exception\<close> turns every error into \<open>raw\<close>.\<close>

definition sanitize_json_str ::
  "(pystr \<Rightarrow> error + ('f json \<times> nat)) \<Rightarrow> ('f json \<Rightarrow> error + pystr) \<Rightarrow> nat \<Rightarrow>
   pyval \<Rightarrow> pyval" where
  "sanitize_json_str raw_decode dumps frames raw =
     (case raw of
        PyOther x \<Rightarrow> raw
      | PyStr r \<Rightarrow>
          if strip r = [] then raw
          else
            (case sanitize_attempt raw_decode dumps frames raw of
               Inl e \<Rightarrow> raw
             | Inr s \<Rightarrow> PyStr s))"

section \<open>The hooks run after an agent\<close>

text \<open>
  What the hooks read of their argument: \<open>agent\<close> is \<open>None\<close> when the attribute is
  missing or \<open>None\<close>, \<open>state\<close> is \<open>None\<close> when the attribute is missing or not a
  \<open>dict\<close>; \<open>output_key\<close> likewise. The hooks return \<open>None\<close> and change \<open>state\<close> in
  place: the model returns the context after the call.
\<close>

record agent_obj =
  output_key :: "pystr option"

record callback_context =
  agent :: "agent_obj option"
  state :: "(pystr \<rightharpoonup> pyval) option"

definition after_agent_sanitize_json ::
  "(pystr \<Rightarrow> error + ('f json \<times> nat)) \<Rightarrow> ('f json \<Rightarrow> error + pystr) \<Rightarrow> nat \<Rightarrow>
   callback_context \<Rightarrow> callback_context" where
  "after_agent_sanitize_json raw_decode dumps frames callback_context =
     (case (agent callback_context, state callback_context) of
        (Some ag, Some st) \<Rightarrow>
          (case output_key ag of
             None \<Rightarrow> callback_context
           | Some key \<Rightarrow>
               if key = [] then callback_context
               else
                 (case st key of
                    Some (PyStr raw) \<Rightarrow>
                      callback_context
                        \<lparr>state := Some (st(key \<mapsto>
                          sanitize_json_str raw_decode dumps frames (PyStr raw)))\<rparr>
                  | _ \<Rightarrow> callback_context))
      | _ \<Rightarrow> callback_context)"

definition after_agent_trim_final_summary :: "callback_context \<Rightarrow> callback_context" where
  "after_agent_trim_final_summary callback_context =
     (case state callback_context of
        None \<Rightarrow> callback_context
      | Some st \<Rightarrow>
          (case st (str ''final_summary'') of
             Some (PyStr fs) \<Rightarrow>
               callback_context\<lparr>state := Some (st(str ''final_summary'' \<mapsto> PyStr (strip fs)))\<rparr>
           | _ \<Rightarrow> callback_context))"

section \<open>The paper search\<close>

text \<open>A naive \<open>datetime\<close>, as \<open>utcnow\<close> and \<open>strptime\<close> return it.\<close>

record datetime =
  year :: int
  month :: int
  day :: int
  hour :: int
  minute :: int
  second :: int
  microsecond :: int

text \<open>The calendar arithmetic of the \<open>datetime\<close> module.\<close>

definition is_leap :: "int \<Rightarrow> bool" where
  "is_leap y \<longleftrightarrow> y mod 4 = 0 \<and> (y mod 100 \<noteq> 0 \<or> y mod 400 = 0)"

definition days_before_year :: "int \<Rightarrow> int" where
  "days_before_year y = (y - 1) * 365 + (y - 1) div 4 - (y - 1) div 100 + (y - 1) div 400"

definition days_in_month :: "int \<Rightarrow> int \<Rightarrow> int" where
  "days_in_month y m =
     (if m = 2 \<and> is_leap y then 29
      else [31, 28, 31, 30, 31, 30, 31, 31, 30, 31, 30, 31] ! nat (m - 1))"

definition days_before_month :: "int \<Rightarrow> int \<Rightarrow> int" where
  "days_before_month y m =
     [0, 31, 59, 90, 120, 151, 181, 212, 243, 273, 304, 334] ! nat (m - 1) +
     (if m > 2 \<and> is_leap y then 1 else 0)"

definition ymd2ord :: "int \<Rightarrow> int \<Rightarrow> int \<Rightarrow> int" where
  "ymd2ord y m d = days_before_year y + days_before_month y m + d"

definition toordinal :: "datetime \<Rightarrow> int" where
  "toordinal dt = ymd2ord (year dt) (month dt) (day dt)"

text \<open>The fields are those of a date and a time of day that exist.\<close>

definition valid_datetime :: "datetime \<Rightarrow> bool" where
  "valid_datetime dt \<longleftrightarrow>
     1 \<le> year dt \<and> year dt \<le> 9999 \<and> 1 \<le> month dt \<and> month dt \<le> 12 \<and>
     1 \<le> day dt \<and> day dt \<le> days_in_month (year dt) (month dt) \<and>
     0 \<le> hour dt \<and> hour dt < 24 \<and> 0 \<le> minute dt \<and> minute dt < 60 \<and>
     0 \<le> second dt \<and> second dt < 60 \<and> 0 \<le> microsecond dt \<and> microsecond dt < 1000000"

text \<open>
  The microseconds from the start of day 0 to a \<open>datetime\<close>. Two naive datetimes
  compare as their fields do in order (\<open>datetime_less\<close> below), which for valid
  ones is the order of these numbers (\<open>datetime_less_instant\<close>); a \<open>datetime\<close>
  minus a \<open>timedelta\<close> of whole days is the number minus the days, so the cutoff is
  kept as this number.
\<close>

definition day_us :: int where
  "day_us = 86400000000"

definition instant :: "datetime \<Rightarrow> int" where
  "instant dt =
     toordinal dt * day_us +
     ((hour dt * 60 + minute dt) * 60 + second dt) * 1000000 + microsecond dt"

text \<open>
  \<open>a < b\<close> for two naive datetimes, as the \<open>datetime\<close> module decides it: the
  fields are compared in order.
\<close>

definition datetime_less :: "datetime \<Rightarrow> datetime \<Rightarrow> bool" where
  "datetime_less a b \<longleftrightarrow>
     year a < year b \<or> (year a = year b \<and>
     (month a < month b \<or> (month a = month b \<and>
     (day a < day b \<or> (day a = day b \<and>
     (hour a < hour b \<or> (hour a = hour b \<and>
     (minute a < minute b \<or> (minute a = minute b \<and>
     (second a < second b \<or> (second a = second b \<and>
      microsecond a < microsecond b)))))))))))"

text \<open>The date and the time of day of that comparison, each on its own.\<close>

definition date_less :: "datetime \<Rightarrow> datetime \<Rightarrow> bool" where
  "date_less a b \<longleftrightarrow>
     year a < year b \<or> (year a = year b \<and>
     (month a < month b \<or> (month a = month b \<and> day a < day b)))"

definition time_us :: "datetime \<Rightarrow> int" where
  "time_us dt = ((hour dt * 60 + minute dt) * 60 + second dt) * 1000000 + microsecond dt"

text \<open>
  \<open>now - datetime.timedelta(days=n)\<close>: \<open>timedelta\<close> refuses more than 999999999
  days, the difference a date outside the years 1 to 9999.
\<close>

definition minus_days :: "datetime \<Rightarrow> int \<Rightarrow> error + int" where
  "minus_days now n =
     (if \<bar>n\<bar> > 999999999 then Inl (OverflowError ''days; must have magnitude <= 999999999'')
      else if 0 < toordinal now - n \<and> toordinal now - n \<le> 3652059
      then Inr (instant now - n * day_us)
      else Inl (OverflowError ''date value out of range''))"

text \<open>
  \<open>datetime.strptime(s, "%Y-%m-%d")\<close> on text whose digits are ASCII digits (the
  library also takes other decimal digits of Unicode, so the functions below take
  the parser as the parameter \<open>strptime\<close>). The format compiles to the pattern
  \<open>(\d\d\d\d)-(1[0-2]|0[1-9]|[1-9])-(3[01]|[12]\d|0[1-9]|[1-9]| [1-9])\<close>; text left
  after the match and a date that does not exist are errors.
\<close>

definition digit_value :: "int \<Rightarrow> int" where
  "digit_value c = c - 0x30"

definition is_digit19 :: "int \<Rightarrow> bool" where
  "is_digit19 c \<longleftrightarrow> 0x31 \<le> c \<and> c \<le> 0x39"

definition match_year :: "pystr \<Rightarrow> (int \<times> pystr) option" where
  "match_year s =
     (case s of
        a # b # c # d # r \<Rightarrow>
          if is_digit a \<and> is_digit b \<and> is_digit c \<and> is_digit d
          then Some (((digit_value a * 10 + digit_value b) * 10 + digit_value c) * 10 + digit_value d, r)
          else None
      | _ \<Rightarrow> None)"

definition match_month :: "pystr \<Rightarrow> (int \<times> pystr) option" where
  "match_month s =
     (case s of
        [] \<Rightarrow> None
      | a # r \<Rightarrow>
          (case r of
             b # r' \<Rightarrow>
               if a = 0x31 \<and> 0x30 \<le> b \<and> b \<le> 0x32 then Some (10 + digit_value b, r')
               else if a = 0x30 \<and> is_digit19 b then Some (digit_value b, r')
               else if is_digit19 a then Some (digit_value a, r)
               else None
           | [] \<Rightarrow> if is_digit19 a then Some (digit_value a, r) else None))"

definition match_day :: "pystr \<Rightarrow> (int \<times> pystr) option" where
  "match_day s =
     (case s of
        [] \<Rightarrow> None
      | a # r \<Rightarrow>
          (case r of
             b # r' \<Rightarrow>
               if a = 0x33 \<and> 0x30 \<le> b \<and> b \<le> 0x31 then Some (30 + digit_value b, r')
               else if 0x31 \<le> a \<and> a \<le> 0x32 \<and> is_digit b
               then Some (digit_value a * 10 + digit_value b, r')
               else if a = 0x30 \<and> is_digit19 b then Some (digit_value b, r')
               else if is_digit19 a then Some (digit_value a, r)
               else if a = 0x20 \<and> is_digit19 b then Some (digit_value b, r')
               else None
           | [] \<Rightarrow> if is_digit19 a then Some (digit_value a, r) else None))"

definition strptime_ymd :: "pystr \<Rightarrow> error + datetime" where
  "strptime_ymd s =
     (case match_year s of
        None \<Rightarrow> Inl (ValueError ''time data does not match format'')
      | Some (y, r1) \<Rightarrow>
          if r1 = [] \<or> hd r1 \<noteq> 0x2D then Inl (ValueError ''time data does not match format'')
          else
            (case match_month (tl r1) of
               None \<Rightarrow> Inl (ValueError ''time data does not match format'')
             | Some (m, r2) \<Rightarrow>
                 if r2 = [] \<or> hd r2 \<noteq> 0x2D then Inl (ValueError ''time data does not match format'')
                 else
                   (case match_day (tl r2) of
                      None \<Rightarrow> Inl (ValueError ''time data does not match format'')
                    | Some (d, r3) \<Rightarrow>
                        if r3 \<noteq> [] then Inl (ValueError ''unconverted data remains'')
                        else if y < 1 then Inl (ValueError ''year is out of range'')
                        else if d > days_in_month y m then Inl (ValueError ''day is out of range for month'')
                        else Inr \<lparr>year = y, month = m, day = d, hour = 0, minute = 0,
                                  second = 0, microsecond = 0\<rparr>)))"

text \<open>
  What \<open>search_papers_func\<close> reads of a feed entry; \<open>None\<close> is a key that the entry
  does not have. An author carries its \<open>name\<close> attribute, \<open>None\<close> when it has none
  (reading it then raises \<open>AttributeError\<close>).
\<close>

datatype author = Author "pystr option"

record entry =
  published :: "pystr option"
  title :: "pystr option"
  authors :: "author list option"
  link :: "pystr option"
  summary :: "pystr option"

text \<open>The dictionary appended to \<open>papers\<close>.\<close>

record paper =
  paper_title :: pystr
  paper_authors :: "pystr list"
  paper_year :: int
  paper_venue :: pystr
  paper_url :: pystr
  paper_summary :: pystr

text \<open>\<open>[a.name for a in ...]\<close>\<close>

fun author_names :: "author list \<Rightarrow> error + pystr list" where
  "author_names [] = Inr []"
| "author_names (Author None # as) = Inl (AttributeError ''object has no attribute name'')"
| "author_names (Author (Some n) # as) =
     (case author_names as of Inl e \<Rightarrow> Inl e | Inr ns \<Rightarrow> Inr (n # ns))"

text \<open>\<open>entry.get(key, "") or ""\<close>\<close>

definition get_or_empty :: "pystr option \<Rightarrow> pystr" where
  "get_or_empty v = (case v of None \<Rightarrow> [] | Some s \<Rightarrow> s)"

text \<open>\<open>entry.get("authors", [])\<close>\<close>

definition entry_authors :: "entry \<Rightarrow> author list" where
  "entry_authors e = (case authors e of None \<Rightarrow> [] | Some as \<Rightarrow> as)"

text \<open>
  The \<open>try\<close> of the loop: \<open>published_dt\<close>, \<open>None\<close> when \<open>strptime\<close> raises on the
  first ten characters of \<open>published\<close>.
\<close>

definition parse_published :: "(pystr \<Rightarrow> error + datetime) \<Rightarrow> entry \<Rightarrow> datetime option" where
  "parse_published strptime e =
     (let published_str = get_or_empty (published e)
      in case strptime (take 10 published_str) of Inl _ \<Rightarrow> None | Inr dt \<Rightarrow> Some dt)"

text \<open>
  One round of the loop over \<open>feed.entries\<close>. \<open>utcnow k\<close> is what the \<open>k\<close>-th call of
  \<open>datetime.utcnow()\<close> returns and \<open>t\<close> counts the calls made so far. The result is
  the paper to append (\<open>None\<close> after \<open>continue\<close>) and the new count.
\<close>

definition process_entry ::
  "(pystr \<Rightarrow> error + datetime) \<Rightarrow> (nat \<Rightarrow> datetime) \<Rightarrow> int \<Rightarrow> nat \<Rightarrow> entry \<Rightarrow>
   error + (paper option \<times> nat)" where
  "process_entry strptime utcnow cutoff_date t e =
     (let published_dt = parse_published strptime e
      in if (case published_dt of None \<Rightarrow> False | Some dt \<Rightarrow> instant dt < cutoff_date)
         then Inr (None, t)
         else
           (let (yr, t') = (case published_dt of
                              Some dt \<Rightarrow> (year dt, t)
                            | None \<Rightarrow> (year (utcnow t), Suc t))
            in case author_names (entry_authors e) of
                 Inl err \<Rightarrow> Inl err
               | Inr names \<Rightarrow>
                   Inr (Some \<lparr>paper_title = strip (get_or_empty (title e)),
                              paper_authors = names,
                              paper_year = yr,
                              paper_venue = str ''arXiv'',
                              paper_url = get_or_empty (link e),
                              paper_summary = strip (get_or_empty (summary e))\<rparr>, t')))"

fun papers_loop ::
  "(pystr \<Rightarrow> error + datetime) \<Rightarrow> (nat \<Rightarrow> datetime) \<Rightarrow> int \<Rightarrow> nat \<Rightarrow> entry list \<Rightarrow>
   paper list \<Rightarrow> error + paper list" where
  "papers_loop strptime utcnow cutoff_date t [] papers = Inr papers"
| "papers_loop strptime utcnow cutoff_date t (e # es) papers =
     (case process_entry strptime utcnow cutoff_date t e of
        Inl err \<Rightarrow> Inl err
      | Inr (None, t') \<Rightarrow> papers_loop strptime utcnow cutoff_date t' es papers
      | Inr (Some p, t') \<Rightarrow> papers_loop strptime utcnow cutoff_date t' es (papers @ [p]))"

text \<open>
  The request of \<open>search_papers_func\<close>, and the function itself. \<open>http_get\<close> stands
  for \<open>httpx.get\<close>, \<open>raise_for_status\<close> and \<open>feedparser.parse\<close>: the entries of the
  feed, or the error of the request.
\<close>

record request =
  search_query :: pystr
  start :: int
  max_results :: int

definition search_papers_func ::
  "(pystr \<Rightarrow> error + datetime) \<Rightarrow> (nat \<Rightarrow> datetime) \<Rightarrow> (request \<Rightarrow> error + entry list) \<Rightarrow>
   pystr \<Rightarrow> int \<Rightarrow> int \<Rightarrow> error + paper list" where
  "search_papers_func strptime utcnow http_get query days_back max_res =
     (let search_query = str ''all:'' @ map (\<lambda>c. if c = 0x20 then 0x2B else c) query;
          max_res = max 1 (min max_res 20);
          params = \<lparr>search_query = search_query, start = 0, max_results = max_res\<rparr>
      in case http_get params of
           Inl err \<Rightarrow> Inl err
         | Inr entries \<Rightarrow>
             (case minus_days (utcnow 0) days_back of
                Inl err \<Rightarrow> Inl err
              | Inr cutoff_date \<Rightarrow> papers_loop strptime utcnow cutoff_date 1 entries []))"

text \<open>
  The specification's words for the recency filter: the cutoff is \<open>now\<close> minus the
  window of \<open>days\<close> days; an entry is dropped when the first ten characters of its
  published date parse and the date is earlier than the cutoff.
\<close>

definition spec_dropped :: "(pystr \<Rightarrow> error + datetime) \<Rightarrow> datetime \<Rightarrow> int \<Rightarrow> entry \<Rightarrow> bool" where
  "spec_dropped strptime now days e \<longleftrightarrow>
     (case strptime (take 10 (get_or_empty (published e))) of
        Inl err \<Rightarrow> False
      | Inr dt \<Rightarrow> instant dt < instant now - days * day_us)"

text \<open>
  The specification's words for the record of an entry that is kept: every missing
  field empty, the venue fixed, and the year that of the published date or, when
  that does not parse, the current year: the year of one of the readings \<open>lo\<close> up to
  \<open>hi - 1\<close> of the clock.
\<close>

definition spec_record ::
  "(pystr \<Rightarrow> error + datetime) \<Rightarrow> (nat \<Rightarrow> datetime) \<Rightarrow> nat \<Rightarrow> nat \<Rightarrow> entry \<Rightarrow> paper \<Rightarrow> bool" where
  "spec_record strptime utcnow lo hi e p \<longleftrightarrow>
     paper_title p = strip (get_or_empty (title e)) \<and>
     author_names (entry_authors e) = Inr (paper_authors p) \<and>
     paper_venue p = str ''arXiv'' \<and>
     paper_url p = get_or_empty (link e) \<and>
     paper_summary p = strip (get_or_empty (summary e)) \<and>
     (case strptime (take 10 (get_or_empty (published e))) of
        Inr dt \<Rightarrow> paper_year p = year dt
      | Inl err \<Rightarrow> \<exists>k \<in> set [lo ..< hi]. paper_year p = year (utcnow k))"

section \<open>Properties of the sanitisers\<close>

lemma strip_trailing_dropWhile:
  "strip_trailing u = rev (dropWhile (\<lambda>c. c \<in> set url_trailing) (rev u))"
proof (induction u rule: strip_trailing.induct)
  case (1 u)
  show ?case
  proof (cases "u \<noteq> [] \<and> last u \<in> set url_trailing")
    case True
    then obtain ys y where u: "u = ys @ [y]" and y: "y \<in> set url_trailing"
      by (metis append_butlast_last_id)
    from True "1.IH" have "strip_trailing (butlast u) =
        rev (dropWhile (\<lambda>c. c \<in> set url_trailing) (rev (butlast u)))"
      by blast
    with u y show ?thesis
      by (subst strip_trailing.simps) simp
  next
    case False
    then show ?thesis
      by (subst strip_trailing.simps) (cases u rule: rev_cases; auto)
  qed
qed

text \<open>
  C4. \<open>normalize_url\<close> trims white space, removes the trailing run of \<open>) ] . , ; " '\<close>,
  trims again; absent and empty input give the empty string; on
  \<open>https://example.com/page).\<close> it gives \<open>https://example.com/page\<close>.
\<close>

theorem normalize_url_spec:
  "normalize_url u = spec_normalize_url u \<and>
   normalize_url None = [] \<and> normalize_url (Some []) = [] \<and>
   normalize_url (Some (str ''https://example.com/page).'')) = str ''https://example.com/page''"
proof -
  have a: "normalize_url u = spec_normalize_url u" for u
    by (cases u) (simp_all add: normalize_url_def spec_normalize_url_def strip_trailing_dropWhile)
  have b: "spec_normalize_url (Some (str ''https://example.com/page).'')) = str ''https://example.com/page''"
    by code_simp
  show ?thesis
    unfolding a using b by (simp add: spec_normalize_url_def strip_def lstrip_def rstrip_def)
qed

lemma dict_set_mid:
  "k \<notin> set (map fst pre) \<Longrightarrow> dict_set (pre @ (k, v) # rest) k x = pre @ (k, x) # rest"
  by (induction pre) auto

lemma sanitize_items_entries:
  "distinct (map fst pre @ map fst items) \<Longrightarrow>
   sanitize_items items (pre @ items) = pre @ map sanitize_entry items"
proof (induction items arbitrary: pre)
  case Nil
  then show ?case by simp
next
  case (Cons kv items)
  obtain k v where kv: "kv = (k, v)" by (cases kv)
  define x where "x = snd (sanitize_entry (k, v))"
  from Cons.prems kv have k: "k \<notin> set (map fst pre)" by auto
  from Cons.prems kv have d: "distinct (map fst (pre @ [(k, x)]) @ map fst items)" by auto
  have "sanitize_items (kv # items) (pre @ kv # items) =
        sanitize_items items (dict_set (pre @ (k, v) # items) k x)"
    by (simp add: kv x_def sanitize_entry_def)
  also have "\<dots> = sanitize_items items ((pre @ [(k, x)]) @ items)"
    by (simp add: dict_set_mid [OF k])
  also have "\<dots> = (pre @ [(k, x)]) @ map sanitize_entry items"
    by (rule Cons.IH [OF d])
  finally show ?case
    by (simp add: kv x_def sanitize_entry_def)
qed

lemma sanitize_items_self:
  "distinct (map fst obj) \<Longrightarrow> sanitize_items obj obj = map sanitize_entry obj"
  using sanitize_items_entries [of "[]" obj] by simp

text \<open>
  The walk under the recursion limit fails with \<open>RecursionError\<close> only, and what it
  returns is the value of \<open>sanitize_links\<close>.
\<close>

lemma sanitize_links_call_value:
  fixes v v' :: "'f json" and items obj d :: "(pystr \<times> 'f json) list" and xs ys :: "'f json list"
  shows "sanitize_links_call n v = Inr v' \<Longrightarrow> v' = sanitize_links v"
    and "sanitize_items_call n items obj = Inr d \<Longrightarrow> d = sanitize_items items obj"
    and "sanitize_list_call n xs = Inr ys \<Longrightarrow> ys = sanitize_list xs"
proof (induction n v and n items obj and n xs arbitrary: v' and d and ys
    rule: sanitize_links_call_sanitize_items_call_sanitize_list_call.induct)
  case (2 n obj)
  then show ?case by (auto split: sum.splits)
next
  case (3 n xs)
  then show ?case by (auto split: sum.splits)
next
  case (10 n k v items obj)
  show ?case
  proof (cases "k = str ''url'' \<and> is_str v")
    case True
    with "10.prems" have n: "n \<noteq> 0"
      and r: "sanitize_items_call n items
                (dict_set obj k (JString (normalize_url (Some (the_str v))))) = Inr d"
      by (auto split: if_splits)
    from "10.IH"(2) [OF _ r] True n
    have "d = sanitize_items items (dict_set obj k (JString (normalize_url (Some (the_str v)))))"
      by simp
    with True show ?thesis by simp
  next
    case False
    with "10.prems" obtain w where w: "sanitize_links_call n v = Inr w"
      and r: "sanitize_items_call n items (dict_set obj k w) = Inr d"
      by (auto split: sum.splits)
    from "10.IH"(1) [OF False w] have "w = sanitize_links v" .
    moreover from "10.IH"(2) [OF _ r] False w have "d = sanitize_items items (dict_set obj k w)"
      by simp
    ultimately show ?thesis using False by auto
  qed
next
  case (12 n x xs)
  from "12.prems" obtain y zs where y: "sanitize_links_call n x = Inr y"
    and z: "sanitize_list_call n xs = Inr zs" and e: "ys = y # zs"
    by (auto split: sum.splits)
  from "12.IH"(1) [OF y] "12.IH"(2) [OF y z] e show ?case by simp
qed simp_all

lemma sanitize_links_call_error:
  fixes v :: "'f json" and items obj :: "(pystr \<times> 'f json) list" and xs :: "'f json list"
  shows "sanitize_links_call n v = Inl e \<Longrightarrow> e = RecursionError"
    and "sanitize_items_call n items obj = Inl e \<Longrightarrow> e = RecursionError"
    and "sanitize_list_call n xs = Inl e \<Longrightarrow> e = RecursionError"
proof (induction n v and n items obj and n xs
    rule: sanitize_links_call_sanitize_items_call_sanitize_list_call.induct)
  case (2 n obj)
  then show ?case by (auto split: sum.splits)
next
  case (3 n xs)
  then show ?case by (auto split: sum.splits)
next
  case (10 n k v items obj)
  then show ?case by (auto split: sum.splits if_splits)
next
  case (12 n x xs)
  then show ?case by (auto split: sum.splits)
qed simp_all

text \<open>
  With as many frames left as the value has levels of nesting, the walk returns.
\<close>

lemma frames_needed_pos: "0 < frames_needed (v :: 'f json)"
  by (cases v) simp_all

lemma sanitize_links_call_returns:
  fixes v :: "'f json" and items obj :: "(pystr \<times> 'f json) list" and xs :: "'f json list"
  shows "frames_needed v \<le> n \<Longrightarrow> sanitize_links_call n v = Inr (sanitize_links v)"
    and "frames_needed_items items \<le> n \<Longrightarrow>
         sanitize_items_call n items obj = Inr (sanitize_items items obj)"
    and "frames_needed_list xs \<le> n \<Longrightarrow> sanitize_list_call n xs = Inr (sanitize_list xs)"
proof (induction n v and n items obj and n xs
    rule: sanitize_links_call_sanitize_items_call_sanitize_list_call.induct)
  case (1 obj)
  with frames_needed_pos [of obj] show ?case by simp
next
  case (10 n k v items obj)
  from "10.prems" have v: "frames_needed v \<le> n" and i: "frames_needed_items items \<le> n"
    by simp_all
  from v frames_needed_pos [of v] have n: "n \<noteq> 0" by simp
  show ?case
  proof (cases "k = str ''url'' \<and> is_str v")
    case True
    with n have "(if k = str ''url'' \<and> is_str v
        then (if n = 0 then Inl RecursionError
              else Inr (JString (normalize_url (Some (the_str v)))))
        else sanitize_links_call n v) = Inr (JString (normalize_url (Some (the_str v))))"
      by simp
    from "10.IH"(2) [OF this i] True n show ?thesis by simp
  next
    case False
    from "10.IH"(1) [OF False v] have c: "sanitize_links_call n v = Inr (sanitize_links v)" .
    with False have "(if k = str ''url'' \<and> is_str v
        then (if n = 0 then Inl RecursionError
              else Inr (JString (normalize_url (Some (the_str v)))))
        else sanitize_links_call n v) = Inr (sanitize_links v)"
      by auto
    from "10.IH"(2) [OF this i] False c show ?thesis by auto
  qed
next
  case (12 n x xs)
  from "12.prems" have x: "frames_needed x \<le> n" and r: "frames_needed_list xs \<le> n"
    by simp_all
  from "12.IH"(1) [OF x] have c: "sanitize_links_call n x = Inr (sanitize_links x)" .
  from "12.IH"(2) [OF c r] c show ?case by simp
qed simp_all

lemma is_str_sanitize_links: "is_str (sanitize_links v) = is_str v"
  by (cases v) simp_all

text \<open>
  Every string under a key \<open>url\<close> is replaced by its normal form, and nothing else
  becomes or stops being such a string.
\<close>

lemma url_strings_sanitize:
  fixes v :: "'f json" and kvs :: "(pystr \<times> 'f json) list" and xs :: "'f json list"
  shows "is_dicts v \<Longrightarrow>
     url_strings (sanitize_links v) = map (\<lambda>u. normalize_url (Some u)) (url_strings v)"
  and "is_dicts_items kvs \<Longrightarrow>
     url_strings_items (map sanitize_entry kvs) =
     map (\<lambda>u. normalize_url (Some u)) (url_strings_items kvs)"
  and "is_dicts_list xs \<Longrightarrow>
     url_strings_list (sanitize_list xs) = map (\<lambda>u. normalize_url (Some u)) (url_strings_list xs)"
proof (induction v and kvs and xs rule: url_strings_url_strings_items_url_strings_list.induct)
  case (1 obj)
  then show ?case by (simp add: sanitize_items_self)
next
  case (9 k v kvs)
  then show ?case
    by (cases "k = str ''url'' \<and> is_str v")
       (auto simp: sanitize_entry_def is_str_sanitize_links)
qed simp_all

lemma rstrip_last: "rstrip s \<noteq> [] \<Longrightarrow> \<not> is_space (last (rstrip s))"
proof -
  assume a: "rstrip s \<noteq> []"
  then have "dropWhile is_space (rev s) \<noteq> []" by (simp add: rstrip_def)
  then have "\<not> is_space (hd (dropWhile is_space (rev s)))" by (rule hd_dropWhile)
  with a show ?thesis by (simp add: rstrip_def last_rev)
qed

lemma strip_last: "strip s \<noteq> [] \<Longrightarrow> \<not> is_space (last (strip s))"
  unfolding strip_def by (rule rstrip_last)

lemma rstrip_id: "s \<noteq> [] \<Longrightarrow> \<not> is_space (last s) \<Longrightarrow> rstrip s = s"
  by (cases s rule: rev_cases) (simp_all add: rstrip_def)

lemma lstrip_id: "s \<noteq> [] \<Longrightarrow> \<not> is_space (hd s) \<Longrightarrow> lstrip s = s"
  by (cases s) (simp_all add: lstrip_def)

lemma rstrip_hd: "s \<noteq> [] \<Longrightarrow> \<not> is_space (hd s) \<Longrightarrow> rstrip s \<noteq> [] \<and> hd (rstrip s) = hd s"
proof (induction s rule: rev_induct)
  case Nil
  then show ?case by simp
next
  case (snoc x xs)
  show ?case
  proof (cases "is_space x")
    case False
    then show ?thesis by (simp add: rstrip_def)
  next
    case True
    then have r: "rstrip (xs @ [x]) = rstrip xs" by (simp add: rstrip_def)
    from True snoc.prems have "xs \<noteq> []" by (cases xs) auto
    with snoc show ?thesis by (simp add: r)
  qed
qed

lemma strip_hd: "strip s \<noteq> [] \<Longrightarrow> \<not> is_space (hd (strip s))"
proof -
  assume a: "strip s \<noteq> []"
  then have l: "lstrip s \<noteq> []" by (auto simp: strip_def rstrip_def)
  then have "\<not> is_space (hd (lstrip s))" unfolding lstrip_def by (rule hd_dropWhile)
  with l show ?thesis using rstrip_hd [of "lstrip s"] by (simp add: strip_def)
qed

lemma strip_trailing_hd: "strip_trailing u \<noteq> [] \<Longrightarrow> hd (strip_trailing u) = hd u"
proof (induction u rule: rev_induct)
  case Nil
  then show ?case by (simp add: strip_trailing_dropWhile)
next
  case (snoc x xs)
  show ?case
  proof (cases "x \<in> set url_trailing")
    case True
    then have r: "strip_trailing (xs @ [x]) = strip_trailing xs"
      by (simp add: strip_trailing_dropWhile)
    with snoc have "hd (strip_trailing xs) = hd xs" by simp
    moreover from snoc.prems r have "xs \<noteq> []" by (auto simp: strip_trailing_dropWhile)
    ultimately show ?thesis by (simp add: r)
  next
    case False
    then show ?thesis by (simp add: strip_trailing_dropWhile)
  qed
qed

lemma strip_trailing_last:
  "strip_trailing u \<noteq> [] \<Longrightarrow> last (strip_trailing u) \<notin> set url_trailing"
proof -
  assume a: "strip_trailing u \<noteq> []"
  let ?d = "dropWhile (\<lambda>c. c \<in> set url_trailing) (rev u)"
  from a have "?d \<noteq> []" by (simp add: strip_trailing_dropWhile)
  then have "\<not> (hd ?d \<in> set url_trailing)" by (rule hd_dropWhile)
  with a show ?thesis by (simp add: strip_trailing_dropWhile last_rev)
qed

lemma normalize_url_no_space:
  "normalize_url u \<noteq> [] \<Longrightarrow> \<not> is_space (last (normalize_url u))"
  unfolding normalize_url_def Let_def by (rule strip_last)

lemma normalize_url_closed:
  assumes "punct_run_closed u" and "normalize_url (Some u) \<noteq> []"
  shows "last (normalize_url (Some u)) \<notin> set url_trailing"
proof -
  let ?t = "strip_trailing (strip u)"
  have n: "normalize_url (Some u) = strip ?t"
    by (cases u) (simp_all add: normalize_url_def)
  with assms(2) have t: "?t \<noteq> []" by (auto simp: strip_def lstrip_def rstrip_def)
  with assms(1) have l: "\<not> is_space (last ?t)" by (auto simp: punct_run_closed_def Let_def)
  from t have s: "strip u \<noteq> []" by (auto simp: strip_trailing_dropWhile)
  from t have "hd ?t = hd (strip u)" by (rule strip_trailing_hd)
  with strip_hd [OF s] have "\<not> is_space (hd ?t)" by simp
  with t l have "strip ?t = ?t" by (simp add: strip_def lstrip_id rstrip_id)
  with n t show ?thesis by (simp add: strip_trailing_last)
qed

text \<open>
  C5, as amended. In a value that \<open>sanitize_links\<close> returns, a non-empty string under a
  key \<open>url\<close> never ends in white space; and where removing the trailing run of
  \<open>) ] . , ; " '\<close> from each trimmed input url leaves no white space at its end, no such
  string ends in one of \<open>) ] . , ; " '\<close>. The brace is not among the characters removed.
\<close>

theorem sanitize_links_url_invariant:
  assumes "is_dicts v"
  shows "(\<forall>r \<in> set (url_strings (sanitize_links v)). r \<noteq> [] \<longrightarrow> \<not> is_space (last r)) \<and>
         ((\<forall>u \<in> set (url_strings v). punct_run_closed u) \<longrightarrow>
          (\<forall>r \<in> set (url_strings (sanitize_links v)). r \<noteq> [] \<longrightarrow> last r \<notin> set url_trailing))"
  using assms
  by (auto simp: url_strings_sanitize(1) normalize_url_no_space normalize_url_closed)

theorem sanitize_links_url_invariant_witness:
  "is_dicts (JObject [(str ''url'', JString (str ''https://example.com/page).'')),
       (str ''refs'', JArray [JObject [(str ''url'', JString (str '' http://a.b/c, ''))]])] :: pyfloat json) \<and>
   punct_run_closed (str ''https://example.com/page).'') \<and>
   punct_run_closed (str '' http://a.b/c, '') \<and>
   url_strings (sanitize_links (JObject [(str ''url'', JString (str ''https://example.com/page).'')),
       (str ''refs'', JArray [JObject [(str ''url'', JString (str '' http://a.b/c, ''))]])] :: pyfloat json)) =
     [str ''https://example.com/page'', str ''http://a.b/c''] \<and>
   \<not> is_space (last (str ''https://example.com/page'')) \<and>
   last (str ''https://example.com/page'') \<notin> set url_trailing \<and>
   \<not> is_space (last (str ''http://a.b/c'')) \<and>
   last (str ''http://a.b/c'') \<notin> set url_trailing"
proof -
  let ?v = "JObject [(str ''url'', JString (str ''https://example.com/page).'')),
       (str ''refs'', JArray [JObject [(str ''url'', JString (str '' http://a.b/c, ''))]])] :: pyfloat json"
  have h: "is_dicts ?v" by code_simp
  have i: "url_strings ?v = [str ''https://example.com/page).'', str '' http://a.b/c, '']"
    by code_simp
  have c1: "punct_run_closed (str ''https://example.com/page).'')" by code_simp
  have c2: "punct_run_closed (str '' http://a.b/c, '')" by code_simp
  have o: "url_strings (sanitize_links ?v) = [str ''https://example.com/page'', str ''http://a.b/c'']"
    by code_simp
  have ne: "str ''https://example.com/page'' \<noteq> []" "str ''http://a.b/c'' \<noteq> []"
    by (simp_all add: str_def)
  from sanitize_links_url_invariant [OF h] i c1 c2 o ne
  have "\<not> is_space (last (str ''https://example.com/page'')) \<and>
        last (str ''https://example.com/page'') \<notin> set url_trailing \<and>
        \<not> is_space (last (str ''http://a.b/c'')) \<and>
        last (str ''http://a.b/c'') \<notin> set url_trailing"
    by simp
  with h c1 c2 o show ?thesis by blast
qed

text \<open>
  The claim as the specification words it fails: a brace at the end of a url stays.
\<close>

theorem url_invariant_counterexample:
  "url_strings (sanitize_links (JObject [(str ''url'', JString (str ''http://x/{''))] :: pyfloat json)) =
     [str ''http://x/{''] \<and>
   str ''http://x/{'' \<noteq> [] \<and>
   last (str ''http://x/{'') \<in> set (str ''){]. ,;'' @ [0x22, 0x27])"
  by code_simp

section \<open>The decoder consumes its input and never runs out of calls\<close>

lemma skip_ws_length: "length (skip_ws s) \<le> length s"
  by (simp add: skip_ws_def length_dropWhile_le)

lemma scanstring_length: "scanstring s acc = Inr (t, r) \<Longrightarrow> length r < length s"
proof (induction s acc rule: scanstring.induct)
  case (1 acc)
  then show ?case by simp
next
  case (2 c cs acc)
  show ?case
  proof (cases "c = 0x22")
    case True
    with 2 show ?thesis by simp
  next
    case q: False
    show ?thesis
    proof (cases "c = 0x5C")
      case True
      with q "2.prems" obtain ch n where e: "scan_escape cs = Inr (ch, n)"
        and s: "scanstring (drop n cs) (acc @ [ch]) = Inr (t, r)"
        by (auto split: sum.splits)
      from "2.IH"(1) [OF q True e refl s] have "length r < length (drop n cs)" .
      then show ?thesis by simp
    next
      case False
      with q "2.prems" have "scanstring cs (acc @ [c]) = Inr (t, r)" and "\<not> c \<le> 0x1F"
        by (auto split: if_splits)
      with "2.IH"(2) q False have "length r < length cs" by simp
      then show ?thesis by simp
    qed
  qed
qed

lemma scan_escape_error: "scan_escape s = Inl e \<Longrightarrow> \<exists>m. e = JSONDecodeError m"
  by (auto simp: scan_escape_def split: list.splits option.splits if_splits)

lemma scanstring_error: "scanstring s acc = Inl e \<Longrightarrow> \<exists>m. e = JSONDecodeError m"
proof (induction s acc rule: scanstring.induct)
  case (1 acc)
  then show ?case by auto
next
  case (2 c cs acc)
  show ?case
  proof (cases "c = 0x22")
    case True
    with 2 show ?thesis by simp
  next
    case q: False
    show ?thesis
    proof (cases "c = 0x5C")
      case True
      show ?thesis
      proof (cases "scan_escape cs")
        case (Inl e')
        with q True "2.prems" show ?thesis by (auto dest: scan_escape_error)
      next
        case (Inr p)
        obtain ch n where p: "p = (ch, n)" by (cases p)
        with Inr q True "2.prems" have "scanstring (drop n cs) (acc @ [ch]) = Inl e" by simp
        with "2.IH"(1) [OF q True] Inr p show ?thesis by simp
      qed
    next
      case False
      with q "2.prems" "2.IH"(2) show ?thesis by (auto split: if_splits)
    qed
  qed
qed

lemma startswith_length: "startswith s p \<Longrightarrow> length p \<le> length s"
  by (metis startswith_def length_take min.cobounded1)

lemma match_integer_length: "match_integer s = Some (i, r) \<Longrightarrow> length r < length s"
proof -
  assume a: "match_integer s = Some (i, r)"
  define sgn where "sgn = (case s of [] \<Rightarrow> [] | g # _ \<Rightarrow> if g = 0x2D then [g] else [])"
  from a obtain d ds where r: "drop (length sgn) s = d # ds"
    by (cases "drop (length sgn) s") (auto simp: match_integer_def sgn_def Let_def)
  have "length (drop (length sgn) s) \<le> length s" by simp
  with r have l: "length ds < length s" by simp
  have "length (dropWhile is_digit ds) \<le> length ds"
    by (rule length_dropWhile_le)
  with l have l': "length (dropWhile is_digit ds) < length s" by simp
  from a r have "r = ds \<or> r = dropWhile is_digit ds"
    by (auto simp: match_integer_def sgn_def Let_def split: if_splits)
  with l l' show ?thesis by auto
qed

lemma match_fraction_length: "match_fraction s = (f, r) \<Longrightarrow> length r \<le> length s"
proof -
  assume a: "match_fraction s = (f, r)"
  then have "r = s \<or> r = dropWhile is_digit (tl s)"
    by (auto simp: match_fraction_def split: list.splits if_splits)
  moreover have "length (dropWhile is_digit (tl s)) \<le> length (tl s)"
    by (rule length_dropWhile_le)
  ultimately show ?thesis by auto
qed

lemma match_exponent_length: "match_exponent s = (x, r) \<Longrightarrow> length r \<le> length s"
proof -
  assume a: "match_exponent s = (x, r)"
  show ?thesis
  proof (cases s)
    case Nil
    with a show ?thesis by (simp add: match_exponent_def)
  next
    case (Cons e rr)
    define sgn where "sgn = (case rr of [] \<Rightarrow> [] | g # _ \<Rightarrow> if g = 0x2B \<or> g = 0x2D then [g] else [])"
    from a Cons have "r = s \<or> r = dropWhile is_digit (drop (length sgn) rr)"
      by (auto simp: match_exponent_def Let_def sgn_def split: if_splits)
    moreover have "length (dropWhile is_digit (drop (length sgn) rr)) \<le> length (drop (length sgn) rr)"
      by (rule length_dropWhile_le)
    then have "length (dropWhile is_digit (drop (length sgn) rr)) \<le> length s"
      using Cons by simp
    ultimately show ?thesis by auto
  qed
qed

lemma match_number_length:
  "match_number s = Some (i, f, x, r) \<Longrightarrow> length r < length s"
proof -
  assume a: "match_number s = Some (i, f, x, r)"
  then obtain r1 where 1: "match_integer s = Some (i, r1)"
    by (auto simp: match_number_def Let_def split: option.splits prod.splits)
  obtain f' r2 where 2: "match_fraction r1 = (f', r2)" by (cases "match_fraction r1")
  obtain x' r3 where 3: "match_exponent r2 = (x', r3)" by (cases "match_exponent r2")
  from a 1 2 3 have "r = r3" by (simp add: match_number_def)
  with match_integer_length [OF 1] match_fraction_length [OF 2] match_exponent_length [OF 3]
  show ?thesis by simp
qed

lemma str_lengths:
  "length (str ''null'') = 4" "length (str ''true'') = 4" "length (str ''false'') = 5"
  "length (str ''NaN'') = 3" "length (str ''Infinity'') = 8" "length (str ''-Infinity'') = 9"
  by (simp_all add: str_def)

lemma scan_atom_length: "scan_atom s = Inr (v, r) \<Longrightarrow> length r < length s"
proof -
  assume a: "scan_atom s = Inr (v, r)"
  have k: "length (drop (length p) s) < length s" if "startswith s p" and "0 < length p" for p
  proof -
    from startswith_length [OF that(1)] that(2) have "length s - length p < length s" by arith
    then show ?thesis by simp
  qed
  note k' = k [of "str ''null''"] k [of "str ''true''"] k [of "str ''false''"]
    k [of "str ''NaN''"] k [of "str ''Infinity''"] k [of "str ''-Infinity''"]
  from a show ?thesis
    using k' match_number_length [of s]
    by (auto simp: scan_atom_def str_lengths split: if_splits option.splits)
qed

lemma scan_atom_error: "scan_atom s = Inl e \<Longrightarrow> \<exists>m. e = JSONDecodeError m"
  by (auto simp: scan_atom_def split: if_splits option.splits)

lemma object_start_length:
  "object_start s = Inr (k, r) \<Longrightarrow> length r < length s \<and> (\<forall>k'. k = Some k' \<longrightarrow> length k' < length s)"
proof -
  assume a: "object_start s = Inr (k, r)"
  show ?thesis
  proof (cases "skip_ws s")
    case Nil
    with a show ?thesis by (auto simp: object_start_def)
  next
    case (Cons d ds)
    with skip_ws_length [of s] have "Suc (length ds) \<le> length s" by simp
    with a Cons show ?thesis by (auto simp: object_start_def split: if_splits)
  qed
qed

lemma object_start_error: "object_start s = Inl e \<Longrightarrow> \<exists>m. e = JSONDecodeError m"
  by (auto simp: object_start_def split: list.splits if_splits)

lemma array_start_length:
  "array_start s = (i, r) \<Longrightarrow>
     (i = None \<longrightarrow> length r < length s) \<and> (\<forall>i'. i = Some i' \<longrightarrow> length i' \<le> length s)"
proof -
  assume a: "array_start s = (i, r)"
  show ?thesis
  proof (cases "skip_ws s")
    case Nil
    with a show ?thesis by (auto simp: array_start_def)
  next
    case (Cons d ds)
    with skip_ws_length [of s] have l: "Suc (length ds) \<le> length s" by simp
    from a have "(i, r) = (if d = 0x5D then (None, ds) else (Some (d # ds), d # ds))"
      by (simp add: array_start_def Cons)
    with l show ?thesis by (auto split: if_splits)
  qed
qed

lemma member_key_length: "member_key s = Inr (key, r) \<Longrightarrow> length r + 2 \<le> length s"
proof -
  assume a: "member_key s = Inr (key, r)"
  then obtain r1 c r2 where 1: "scanstring s [] = Inr (key, r1)" and 2: "skip_ws r1 = c # r2"
    and 3: "r = skip_ws r2"
    by (auto simp: member_key_def split: sum.splits list.splits if_splits)
  from scanstring_length [OF 1] skip_ws_length [of r1] skip_ws_length [of r2] 2 3
  show ?thesis by simp
qed

lemma member_key_error: "member_key s = Inl e \<Longrightarrow> \<exists>m. e = JSONDecodeError m"
  by (auto simp: member_key_def dest: scanstring_error split: sum.splits list.splits if_splits)

lemma after_member_length: "after_member s = Inr (again, r) \<Longrightarrow> length r < length s"
proof -
  assume a: "after_member s = Inr (again, r)"
  then obtain d r1 where 1: "skip_ws s = d # r1"
    by (auto simp: after_member_def split: list.splits)
  from a 1 skip_ws_length [of s] skip_ws_length [of r1] show ?thesis
    by (auto simp: after_member_def split: list.splits if_splits)
qed

lemma after_member_error: "after_member s = Inl e \<Longrightarrow> \<exists>m. e = JSONDecodeError m"
  by (auto simp: after_member_def split: list.splits if_splits)

lemma after_item_length: "after_item s = Inr (again, r) \<Longrightarrow> length r < length s"
proof -
  assume a: "after_item s = Inr (again, r)"
  then obtain d r1 where 1: "skip_ws s = d # r1"
    by (auto simp: after_item_def split: list.splits)
  from a 1 skip_ws_length [of s] skip_ws_length [of r1] show ?thesis
    by (auto simp: after_item_def split: list.splits if_splits)
qed

lemma after_item_error: "after_item s = Inl e \<Longrightarrow> \<exists>m. e = JSONDecodeError m"
  by (auto simp: after_item_def split: list.splits if_splits)

text \<open>Every value takes at least one character.\<close>

lemma scan_once_length:
  "scan_once n s = Inr (v, r) \<Longrightarrow> length r < length s"
  "parse_members n s pairs = Inr (v, r) \<Longrightarrow> length r < length s"
  "parse_items n s vals = Inr (v, r) \<Longrightarrow> length r < length s"
proof (induction n s and n s pairs and n s vals arbitrary: v r and v r and v r
    rule: scan_once_parse_members_parse_items.induct)
  case (3 n c cs)
  show ?case
  proof (cases "c = 0x22")
    case True
    with "3.prems" show ?thesis
      by (auto split: sum.splits dest: scanstring_length)
  next
    case q: False
    show ?thesis
    proof (cases "c = 0x7B")
      case True
      show ?thesis
      proof (cases "object_start cs")
        case (Inl e)
        with q True "3.prems" show ?thesis by simp
      next
        case (Inr p)
        obtain k r' where p: "p = (k, r')" by (cases p)
        show ?thesis
        proof (cases k)
          case None
          with Inr p q True "3.prems" object_start_length [of cs k r'] show ?thesis by auto
        next
          case (Some k')
          with Inr p q True "3.prems" have "parse_members n k' [] = Inr (v, r)" by simp
          with "3.IH"(1) [OF q True Inr p [symmetric] Some] have "length r < length k'" by simp
          with Inr p Some object_start_length [of cs k r'] show ?thesis by auto
        qed
      qed
    next
      case b: False
      show ?thesis
      proof (cases "c = 0x5B")
        case True
        obtain i r' where p: "array_start cs = (i, r')" by (cases "array_start cs")
        show ?thesis
        proof (cases i)
          case None
          with p q b True "3.prems" array_start_length [of cs i r'] show ?thesis by auto
        next
          case (Some i')
          with p q b True "3.prems" have "parse_items n i' [] = Inr (v, r)" by simp
          with "3.IH"(2) [OF q b True p [symmetric] Some] have "length r < length i'" by simp
          with p Some array_start_length [of cs i r'] show ?thesis by auto
        qed
      next
        case False
        with q b "3.prems" show ?thesis by (auto dest: scan_atom_length)
      qed
    qed
  qed
next
  case (5 n s pairs)
  from "5.prems" obtain key r1 where k: "member_key s = Inr (key, r1)"
    by (auto split: sum.splits)
  with "5.prems" obtain v1 r2 where s: "scan_once n r1 = Inr (v1, r2)"
    by (auto split: sum.splits)
  with k "5.prems" obtain again r3 where a: "after_member r2 = Inr (again, r3)"
    by (auto split: sum.splits)
  from "5.IH"(1) [OF k refl s] have l2: "length r2 < length r1" .
  from member_key_length [OF k] after_member_length [OF a] l2
  have l3: "length r3 < length s" by simp
  show ?case
  proof (cases again)
    case True
    with k s a "5.prems" have "parse_members n r3 (pairs @ [(key, v1)]) = Inr (v, r)" by simp
    with "5.IH"(2) [OF k refl s refl a refl True]
    have "length r < length r3" by simp
    with l3 show ?thesis by simp
  next
    case False
    with k s a "5.prems" l3 show ?thesis by simp
  qed
next
  case (7 n s vals)
  from "7.prems" obtain v1 r1 where s: "scan_once n s = Inr (v1, r1)"
    by (auto split: sum.splits)
  with "7.prems" obtain again r2 where a: "after_item r1 = Inr (again, r2)"
    by (auto split: sum.splits)
  from "7.IH"(1) [OF s] have l1: "length r1 < length s" .
  with after_item_length [OF a] have l2: "length r2 < length s" by simp
  show ?case
  proof (cases again)
    case True
    with s a "7.prems" have "parse_items n r2 (vals @ [v1]) = Inr (v, r)" by simp
    with "7.IH"(2) [OF s refl a refl True]
    have "length r < length r2" by simp
    with l2 show ?thesis by simp
  next
    case False
    with s a "7.prems" l2 show ?thesis by simp
  qed
qed simp_all


text \<open>
  A call of \<open>scan_once\<close> nests at most two calls for each character it has passed, so
  the calls that \<open>json_raw_decode\<close> allows are never used up.
\<close>

lemma scan_once_fuel:
  "2 * length s < n \<Longrightarrow> scan_once n s \<noteq> Inl (OtherError ''out of fuel'')"
  "2 * length s + 1 < n \<Longrightarrow> parse_members n s pairs \<noteq> Inl (OtherError ''out of fuel'')"
  "2 * length s + 1 < n \<Longrightarrow> parse_items n s vals \<noteq> Inl (OtherError ''out of fuel'')"
proof (induction n s and n s pairs and n s vals
    rule: scan_once_parse_members_parse_items.induct)
  case (3 n c cs)
  show ?case
  proof (cases "c = 0x22")
    case True
    then show ?thesis
      by (auto split: sum.splits dest: scanstring_error)
  next
    case q: False
    show ?thesis
    proof (cases "c = 0x7B")
      case True
      show ?thesis
      proof (cases "object_start cs")
        case (Inl e)
        with q True show ?thesis by (auto dest: object_start_error)
      next
        case (Inr p)
        obtain k r' where p: "p = (k, r')" by (cases p)
        show ?thesis
        proof (cases k)
          case None
          with Inr p q True show ?thesis by simp
        next
          case (Some k')
          from Inr p Some object_start_length [of cs k r'] have "length k' < length cs" by auto
          with "3.prems" have "2 * length k' + 1 < n" by simp
          from "3.IH"(1) [OF q True Inr p [symmetric] Some this]
          show ?thesis using Inr p q True Some by simp
        qed
      qed
    next
      case b: False
      show ?thesis
      proof (cases "c = 0x5B")
        case True
        obtain i r' where p: "array_start cs = (i, r')" by (cases "array_start cs")
        show ?thesis
        proof (cases i)
          case None
          with p q b True show ?thesis by simp
        next
          case (Some i')
          from p Some array_start_length [of cs i r'] have "length i' \<le> length cs" by auto
          with "3.prems" have "2 * length i' + 1 < n" by simp
          from "3.IH"(2) [OF q b True p [symmetric] Some this]
          show ?thesis using p q b True Some by simp
        qed
      next
        case False
        with q b show ?thesis by (auto dest: scan_atom_error)
      qed
    qed
  qed
next
  case (5 n s pairs)
  show ?case
  proof (cases "member_key s")
    case (Inl e)
    then show ?thesis by (auto dest: member_key_error)
  next
    case (Inr p)
    obtain key r1 where p: "p = (key, r1)" by (cases p)
    from Inr p have k: "member_key s = Inr (key, r1)" by simp
    from member_key_length [OF k] "5.prems" have f1: "2 * length r1 < n" by simp
    show ?thesis
    proof (cases "scan_once n r1")
      case (Inl e)
      with "5.IH"(1) [OF k refl f1] k show ?thesis by simp
    next
      case (Inr p1)
      obtain v1 r2 where p1: "p1 = (v1, r2)" by (cases p1)
      from Inr p1 have s: "scan_once n r1 = Inr (v1, r2)" by simp
      from scan_once_length(1) [OF s] have l2: "length r2 < length r1" .
      show ?thesis
      proof (cases "after_member r2")
        case (Inl e)
        with k s show ?thesis by (auto dest: after_member_error)
      next
        case (Inr p2)
        obtain again r3 where p2: "p2 = (again, r3)" by (cases p2)
        from Inr p2 have a: "after_member r2 = Inr (again, r3)" by simp
        from after_member_length [OF a] l2 member_key_length [OF k] "5.prems"
        have f3: "2 * length r3 + 1 < n" by simp
        show ?thesis
        proof (cases again)
          case True
          from "5.IH"(2) [OF k refl s refl a refl True f3]
          show ?thesis using k s a True by simp
        next
          case False
          with k s a show ?thesis by simp
        qed
      qed
    qed
  qed
next
  case (7 n s vals)
  from "7.prems" have f1: "2 * length s < n" by simp
  show ?case
  proof (cases "scan_once n s")
    case (Inl e)
    with "7.IH"(1) [OF f1] show ?thesis by simp
  next
    case (Inr p1)
    obtain v1 r1 where p1: "p1 = (v1, r1)" by (cases p1)
    from Inr p1 have s: "scan_once n s = Inr (v1, r1)" by simp
    from scan_once_length(1) [OF s] have l1: "length r1 < length s" .
    show ?thesis
    proof (cases "after_item r1")
      case (Inl e)
      with s show ?thesis by (auto dest: after_item_error)
    next
      case (Inr p2)
      obtain again r2 where p2: "p2 = (again, r2)" by (cases p2)
      from Inr p2 have a: "after_item r1 = Inr (again, r2)" by simp
      from after_item_length [OF a] l1 "7.prems" have f2: "2 * length r2 + 1 < n" by simp
      show ?thesis
      proof (cases again)
        case True
        from "7.IH"(2) [OF s refl a refl True f2]
        show ?thesis using s a True by simp
      next
        case False
        with s a show ?thesis by simp
      qed
    qed
  qed
qed simp_all

lemma json_raw_decode_total:
  "json_raw_decode s \<noteq> Inl (OtherError ''out of fuel'')"
  "json_raw_decode s = Inr (v, e) \<Longrightarrow> 0 < e \<and> e \<le> length s"
proof -
  have "scan_once (2 * length s + 2) s \<noteq> Inl (OtherError ''out of fuel'')"
    by (rule scan_once_fuel(1)) simp
  then show "json_raw_decode s \<noteq> Inl (OtherError ''out of fuel'')"
    by (auto simp: json_raw_decode_def split: sum.splits)
  assume "json_raw_decode s = Inr (v, e)"
  then obtain r where "scan_once (2 * length s + 2) s = Inr (v, r)" and e: "e = length s - length r"
    by (auto simp: json_raw_decode_def split: sum.splits)
  from scan_once_length(1) [OF this(1)] e show "0 < e \<and> e \<le> length s" by simp
qed


text \<open>What the decoder returns has no key twice in any of its dictionaries.\<close>

lemma dict_set_keys: "set (map fst (dict_set d k v)) = insert k (set (map fst d))"
proof (induction d)
  case Nil
  then show ?case by simp
next
  case (Cons kv d)
  obtain k' v' where kv: "kv = (k', v')" by (cases kv)
  show ?case
  proof (cases "k' = k")
    case True
    with kv show ?thesis by simp
  next
    case False
    with kv have "set (map fst (dict_set (kv # d) k v)) = insert k' (set (map fst (dict_set d k v)))"
      by simp
    also have "\<dots> = insert k' (insert k (set (map fst d)))"
      by (simp only: Cons.IH)
    finally show ?thesis using kv by (simp add: insert_commute)
  qed
qed

lemma dict_set_distinct: "distinct (map fst d) \<Longrightarrow> distinct (map fst (dict_set d k v))"
proof (induction d)
  case Nil
  then show ?case by simp
next
  case (Cons kv d)
  obtain k' v' where kv: "kv = (k', v')" by (cases kv)
  show ?case
  proof (cases "k' = k")
    case True
    with Cons.prems kv show ?thesis by simp
  next
    case False
    from Cons.prems kv have "k' \<notin> set (map fst d)" and "distinct (map fst d)" by simp_all
    with False have "k' \<notin> set (map fst (dict_set d k v))"
      by (simp only: dict_set_keys) simp
    with Cons.IH \<open>distinct (map fst d)\<close> False kv show ?thesis by simp
  qed
qed

lemma dict_set_dicts:
  "is_dicts_items d \<Longrightarrow> is_dicts v \<Longrightarrow> is_dicts_items (dict_set d k v)"
  by (induction d) auto

lemma is_dicts_items_append:
  "is_dicts_items (xs @ ys) \<longleftrightarrow> is_dicts_items xs \<and> is_dicts_items ys"
  by (induction xs) auto

lemma is_dicts_list_append:
  "is_dicts_list (xs @ ys) \<longleftrightarrow> is_dicts_list xs \<and> is_dicts_list ys"
  by (induction xs) auto

lemma fold_dict_set_dicts:
  "distinct (map fst d) \<Longrightarrow> is_dicts_items d \<Longrightarrow> is_dicts_items pairs \<Longrightarrow>
   distinct (map fst (fold (\<lambda>kv d. dict_set d (fst kv) (snd kv)) pairs d)) \<and>
   is_dicts_items (fold (\<lambda>kv d. dict_set d (fst kv) (snd kv)) pairs d)"
proof (induction pairs arbitrary: d)
  case Nil
  then show ?case by simp
next
  case (Cons kv pairs)
  obtain k v where kv: "kv = (k, v)" by (cases kv)
  from Cons.prems kv have "distinct (map fst (dict_set d k v))"
    by (simp add: dict_set_distinct)
  moreover from Cons.prems kv have "is_dicts_items (dict_set d k v)"
    by (simp add: dict_set_dicts)
  moreover from Cons.prems kv have "is_dicts_items pairs" by simp
  ultimately show ?case
    using Cons.IH [of "dict_set d k v"] kv by simp
qed

lemma dict_of_pairs_dicts:
  "is_dicts_items pairs \<Longrightarrow> is_dicts (JObject (dict_of_pairs pairs))"
  using fold_dict_set_dicts [of "[]" pairs] by (simp add: dict_of_pairs_def)

lemma scan_atom_dicts: "scan_atom s = Inr (v, r) \<Longrightarrow> is_dicts v"
  by (auto simp: scan_atom_def split: if_splits option.splits)

lemma scan_once_dicts:
  "scan_once n s = Inr (v, r) \<Longrightarrow> is_dicts v"
  "parse_members n s pairs = Inr (v, r) \<Longrightarrow> is_dicts_items pairs \<Longrightarrow> is_dicts v"
  "parse_items n s vals = Inr (v, r) \<Longrightarrow> is_dicts_list vals \<Longrightarrow> is_dicts v"
proof (induction n s and n s pairs and n s vals arbitrary: v r and v r and v r
    rule: scan_once_parse_members_parse_items.induct)
  case (3 n c cs)
  show ?case
  proof (cases "c = 0x22")
    case True
    with "3.prems" show ?thesis by (auto split: sum.splits)
  next
    case q: False
    show ?thesis
    proof (cases "c = 0x7B")
      case True
      show ?thesis
      proof (cases "object_start cs")
        case (Inl e)
        with q True "3.prems" show ?thesis by simp
      next
        case (Inr p)
        obtain k r' where p: "p = (k, r')" by (cases p)
        show ?thesis
        proof (cases k)
          case None
          with Inr p q True "3.prems" show ?thesis by auto
        next
          case (Some k')
          with Inr p q True "3.prems" have "parse_members n k' [] = Inr (v, r)" by simp
          from "3.IH"(1) [OF q True Inr p [symmetric] Some this] show ?thesis by simp
        qed
      qed
    next
      case b: False
      show ?thesis
      proof (cases "c = 0x5B")
        case True
        obtain i r' where p: "array_start cs = (i, r')" by (cases "array_start cs")
        show ?thesis
        proof (cases i)
          case None
          with p q b True "3.prems" show ?thesis by auto
        next
          case (Some i')
          with p q b True "3.prems" have "parse_items n i' [] = Inr (v, r)" by simp
          from "3.IH"(2) [OF q b True p [symmetric] Some this] show ?thesis by simp
        qed
      next
        case False
        with q b "3.prems" show ?thesis by (auto dest: scan_atom_dicts)
      qed
    qed
  qed
next
  case (5 n s pairs)
  from "5.prems" obtain key r1 where k: "member_key s = Inr (key, r1)"
    by (auto split: sum.splits)
  with "5.prems" obtain v1 r2 where s: "scan_once n r1 = Inr (v1, r2)"
    by (auto split: sum.splits)
  with k "5.prems" obtain again r3 where a: "after_member r2 = Inr (again, r3)"
    by (auto split: sum.splits)
  from "5.IH"(1) [OF k refl s] have "is_dicts v1" .
  with "5.prems"(2) have d: "is_dicts_items (pairs @ [(key, v1)])"
    by (simp add: is_dicts_items_append)
  show ?case
  proof (cases again)
    case True
    with k s a "5.prems" have "parse_members n r3 (pairs @ [(key, v1)]) = Inr (v, r)" by simp
    from "5.IH"(2) [OF k refl s refl a refl True this d] show ?thesis .
  next
    case False
    with k s a "5.prems" have "v = JObject (dict_of_pairs (pairs @ [(key, v1)]))" by simp
    with d show ?thesis by (simp only: dict_of_pairs_dicts)
  qed
next
  case (7 n s vals)
  from "7.prems" obtain v1 r1 where s: "scan_once n s = Inr (v1, r1)"
    by (auto split: sum.splits)
  with "7.prems" obtain again r2 where a: "after_item r1 = Inr (again, r2)"
    by (auto split: sum.splits)
  from "7.IH"(1) [OF s] have "is_dicts v1" .
  with "7.prems"(2) have d: "is_dicts_list (vals @ [v1])"
    by (simp add: is_dicts_list_append)
  show ?case
  proof (cases again)
    case True
    with s a "7.prems" have "parse_items n r2 (vals @ [v1]) = Inr (v, r)" by simp
    from "7.IH"(2) [OF s refl a refl True this d] show ?thesis .
  next
    case False
    with s a "7.prems" have "v = JArray (vals @ [v1])" by auto
    with d show ?thesis by simp
  qed
qed simp_all

lemma json_raw_decode_dicts: "json_raw_decode s = Inr (v, e) \<Longrightarrow> is_dicts v"
  by (auto simp: json_raw_decode_def split: sum.splits dest: scan_once_dicts(1))

section \<open>Properties of the extraction\<close>

lemma startswith_single: "startswith (x # xs) [c] \<longleftrightarrow> x = c"
  by (simp add: startswith_def)

lemma find_from_char:
  "find_from s [c] i =
     (if c \<in> set s then i + int (length (takeWhile (\<lambda>x. x \<noteq> c) s)) else - 1)"
  by (induction s arbitrary: i) (auto simp: startswith_single)

lemma find_str_char:
  "find_str s [c] = (if c \<in> set s then int (length (takeWhile (\<lambda>x. x \<noteq> c) s)) else - 1)"
  by (simp add: find_str_def find_from_char)

lemma takeWhile_conj_length:
  "length (takeWhile (\<lambda>x. P x \<and> Q x) s) = min (length (takeWhile P s)) (length (takeWhile Q s))"
  by (induction s) auto

lemma takeWhile_absent: "c \<notin> set s \<Longrightarrow> takeWhile (\<lambda>x. x \<noteq> c) s = s"
  by (induction s) auto

lemma drop_takeWhile_length: "drop (length (takeWhile P s)) s = dropWhile P s"
  by (induction s) auto

text \<open>
  \<open>s[min(starts):]\<close> is \<open>s\<close> from its first brace or bracket on.
\<close>

lemma slice_from_first_start:
  assumes "a \<in> set s \<or> b \<in> set s"
  defines "starts \<equiv> filter (\<lambda>p. p \<noteq> - 1) [find_str s [a], find_str s [b]]"
  shows "starts \<noteq> []"
    and "slice_from s (fold min (tl starts) (hd starts)) = dropWhile (\<lambda>x. x \<noteq> a \<and> x \<noteq> b) s"
proof -
  let ?la = "length (takeWhile (\<lambda>x. x \<noteq> a) s)"
  let ?lb = "length (takeWhile (\<lambda>x. x \<noteq> b) s)"
  have d: "drop (min ?la ?lb) s = dropWhile (\<lambda>x. x \<noteq> a \<and> x \<noteq> b) s"
    using drop_takeWhile_length [of "\<lambda>x. x \<noteq> a \<and> x \<noteq> b" s]
    by (simp add: takeWhile_conj_length)
  have le: "?la \<le> length s" "?lb \<le> length s"
    by (simp_all add: length_takeWhile_le)
  show "starts \<noteq> []"
    using assms(1) by (auto simp: starts_def find_str_char)
  consider (both) "a \<in> set s" "b \<in> set s" | (onlya) "a \<in> set s" "b \<notin> set s"
    | (onlyb) "a \<notin> set s" "b \<in> set s"
    using assms(1) by blast
  then show "slice_from s (fold min (tl starts) (hd starts)) = dropWhile (\<lambda>x. x \<noteq> a \<and> x \<noteq> b) s"
  proof cases
    case both
    then have "fold min (tl starts) (hd starts) = int (min ?la ?lb)"
      by (simp add: starts_def find_str_char min_def)
    then show ?thesis using d by (simp add: slice_from_def)
  next
    case onlya
    then have "fold min (tl starts) (hd starts) = int ?la"
      by (simp add: starts_def find_str_char)
    moreover from onlya have "min ?la ?lb = ?la"
      using le by (simp add: takeWhile_absent)
    ultimately show ?thesis using d by (simp add: slice_from_def)
  next
    case onlyb
    then have "fold min (tl starts) (hd starts) = int ?lb"
      by (simp add: starts_def find_str_char)
    moreover from onlyb have "min ?la ?lb = ?lb"
      using le by (simp add: takeWhile_absent)
    ultimately show ?thesis using d by (simp add: slice_from_def)
  qed
qed

lemma str_brace: "str ''{'' = [0x7B]" "str ''['' = [0x5B]"
  by (simp_all add: str_def)

lemma extract_no_start:
  assumes "t \<noteq> []" and "0x7B \<notin> set (strip_fences t)" and "0x5B \<notin> set (strip_fences t)"
  shows "extract_first_json_value dec (PyStr t) = Inl (ValueError ''no JSON start found'')"
  using assms by (simp add: extract_first_json_value_def Let_def str_brace find_str_char)

lemma extract_at_start:
  assumes "t \<noteq> []" and "0x7B \<in> set (strip_fences t) \<or> 0x5B \<in> set (strip_fences t)"
  shows "extract_first_json_value dec (PyStr t) =
           (case dec (dropWhile (\<lambda>c. c \<noteq> 0x7B \<and> c \<noteq> 0x5B) (strip_fences t)) of
              Inl e \<Rightarrow> Inl e
            | Inr (obj, end) \<Rightarrow> Inr obj)"
  using assms slice_from_first_start [OF assms(2)]
  by (simp add: extract_first_json_value_def Let_def str_brace)

text \<open>With the decoder of the library, the value extracted has no key twice.\<close>

lemma extract_first_json_value_dicts:
  "extract_first_json_value json_raw_decode text = Inr obj \<Longrightarrow> is_dicts obj"
  by (auto simp: extract_first_json_value_def Let_def
      split: pyval.splits if_splits sum.splits dest: json_raw_decode_dicts)

text \<open>
  C2. Where the stripped text has a brace or a bracket, \<open>extract_first_json_value\<close>
  decodes the text from the first of them on and returns the value alone, whatever
  follows it; where it has neither, and on the empty string, it fails with a
  \<open>ValueError\<close>. Of \<open>{"a":1}{"a":2}\<close> it returns the first object, which ends at
  index 7.
\<close>

theorem extract_first_json_value_first_value:
  \<open>(t = [] \<longrightarrow>
      extract_first_json_value dec (PyStr t) = Inl (ValueError ''empty/non-string text'')) \<and>
   (t \<noteq> [] \<and> (0x7B \<in> set (strip_fences t) \<or> 0x5B \<in> set (strip_fences t)) \<longrightarrow>
      extract_first_json_value dec (PyStr t) =
        (case dec (dropWhile (\<lambda>c. c \<noteq> 0x7B \<and> c \<noteq> 0x5B) (strip_fences t)) of
           Inl e \<Rightarrow> Inl e
         | Inr (obj, end) \<Rightarrow> Inr obj)) \<and>
   (t \<noteq> [] \<and> 0x7B \<notin> set (strip_fences t) \<and> 0x5B \<notin> set (strip_fences t) \<longrightarrow>
      extract_first_json_value dec (PyStr t) = Inl (ValueError ''no JSON start found'')) \<and>
   json_raw_decode (str ''{"a":1}{"a":2}'') = Inr (JObject [(str ''a'', JInt 1)], 7) \<and>
   extract_first_json_value json_raw_decode (PyStr (str ''{"a":1}{"a":2}'')) =
     Inr (JObject [(str ''a'', JInt 1)])\<close>
proof -
  have 1: \<open>json_raw_decode (str ''{"a":1}{"a":2}'') = Inr (JObject [(str ''a'', JInt 1)], 7)\<close>
    by code_simp
  have 2: \<open>extract_first_json_value json_raw_decode (PyStr (str ''{"a":1}{"a":2}'')) =
     Inr (JObject [(str ''a'', JInt 1)])\<close>
    by code_simp
  have 3: "t = [] \<longrightarrow>
      extract_first_json_value dec (PyStr t) = Inl (ValueError ''empty/non-string text'')"
    by (simp add: extract_first_json_value_def)
  from 1 2 3 show ?thesis
    using extract_at_start [of t dec] extract_no_start [of t dec]
    by blast
qed

theorem extract_first_json_value_first_value_witness:
  \<open>str ''see [1, 2] and {}'' \<noteq> [] \<and>
   0x5B \<in> set (strip_fences (str ''see [1, 2] and {}'')) \<and>
   dropWhile (\<lambda>c. c \<noteq> 0x7B \<and> c \<noteq> 0x5B) (strip_fences (str ''see [1, 2] and {}'')) =
     str ''[1, 2] and {}'' \<and>
   json_raw_decode (str ''[1, 2] and {}'') = Inr (JArray [JInt 1, JInt 2], 6) \<and>
   extract_first_json_value json_raw_decode (PyStr (str ''see [1, 2] and {}'')) =
     Inr (JArray [JInt 1, JInt 2]) \<and>
   0x7B \<notin> set (strip_fences (str ''no value here'')) \<and>
   0x5B \<notin> set (strip_fences (str ''no value here'')) \<and>
   extract_first_json_value json_raw_decode (PyStr (str ''no value here'')) =
     Inl (ValueError ''no JSON start found'') \<and>
   extract_first_json_value json_raw_decode (PyStr []) =
     Inl (ValueError ''empty/non-string text'')\<close>
proof -
  have a: \<open>str ''see [1, 2] and {}'' \<noteq> []\<close> \<open>str ''no value here'' \<noteq> []\<close>
    by (simp_all add: str_def)
  have b: \<open>0x5B \<in> set (strip_fences (str ''see [1, 2] and {}''))\<close>
    by code_simp
  have c: \<open>dropWhile (\<lambda>c. c \<noteq> 0x7B \<and> c \<noteq> 0x5B) (strip_fences (str ''see [1, 2] and {}'')) =
     str ''[1, 2] and {}''\<close>
    by code_simp
  have d: \<open>json_raw_decode (str ''[1, 2] and {}'') = Inr (JArray [JInt 1, JInt 2], 6)\<close>
    by code_simp
  have e: \<open>0x7B \<notin> set (strip_fences (str ''no value here''))\<close>
    \<open>0x5B \<notin> set (strip_fences (str ''no value here''))\<close>
    by code_simp+
  from extract_first_json_value_first_value [of \<open>str ''see [1, 2] and {}''\<close> json_raw_decode] a b
  have f: \<open>extract_first_json_value json_raw_decode (PyStr (str ''see [1, 2] and {}'')) =
     Inr (JArray [JInt 1, JInt 2])\<close>
    by (simp add: c d)
  from extract_first_json_value_first_value [of \<open>str ''no value here''\<close> json_raw_decode] a e
  have g: \<open>extract_first_json_value json_raw_decode (PyStr (str ''no value here'')) =
     Inl (ValueError ''no JSON start found'')\<close>
    by simp
  from extract_first_json_value_first_value [of \<open>[]\<close> json_raw_decode]
  have h: \<open>extract_first_json_value json_raw_decode (PyStr []) =
     Inl (ValueError ''empty/non-string text'')\<close>
    by simp
  from a b c d e f g h show ?thesis by blast
qed

text \<open>
  C3. The leading fence is removed by replacing the first \<open>```json\<close> of the whole
  text, not only one at its start: after a bare fence, a \<open>```json\<close> inside the value
  is cut to \<open>```\<close> before decoding. The enclosed value \<open>{"a":"```json"}\<close> decodes to a
  string of seven characters, the fenced text to one of three. The example of the
  specification, with the tag on the fence itself, decodes as it should.
\<close>

theorem fence_tag_replaced_inside_value:
  \<open>extract_first_json_value json_raw_decode
      (PyStr (str ''```\<newline>{"a":"```json"}\<newline>```'')) =
     Inr (JObject [(str ''a'', JString (str ''```''))]) \<and>
   json_raw_decode (str ''{"a":"```json"}'') =
     Inr (JObject [(str ''a'', JString (str ''```json''))], 15) \<and>
   strip_fences (str ''```\<newline>{"a":"```json"}\<newline>```'') = str ''{"a":"```"}'' \<and>
   extract_first_json_value json_raw_decode
      (PyStr (str ''```json\<newline>{"a":1}\<newline>```'')) =
     Inr (JObject [(str ''a'', JInt 1)])\<close>
  by code_simp

section \<open>Properties of \<open>sanitize_json_str\<close>\<close>

text \<open>
  C1. \<open>sanitize_json_str\<close> returns its argument when that is no string or a blank
  one, and when the extraction, the walk of \<open>_sanitize_links\<close> or the encoding
  raises; where none of them does, it returns the encoding of the sanitised value.
  It has no other outcome. \<open>not json at all\<close> comes back unchanged.
\<close>

theorem sanitize_json_str_fail_open:
  \<open>(\<forall>x. raw = PyOther x \<longrightarrow> sanitize_json_str dec enc frames raw = raw) \<and>
   (\<forall>r. raw = PyStr r \<and> strip r = [] \<longrightarrow> sanitize_json_str dec enc frames raw = raw) \<and>
   (\<forall>e. extract_first_json_value dec raw = Inl e \<longrightarrow>
      sanitize_json_str dec enc frames raw = raw) \<and>
   (\<forall>obj e. extract_first_json_value dec raw = Inr obj \<and>
        sanitize_links_call frames obj = Inl e \<longrightarrow>
      sanitize_json_str dec enc frames raw = raw) \<and>
   (\<forall>obj e. extract_first_json_value dec raw = Inr obj \<and>
        sanitize_links_call frames obj = Inr (sanitize_links obj) \<and>
        enc (sanitize_links obj) = Inl e \<longrightarrow>
      sanitize_json_str dec enc frames raw = raw) \<and>
   (\<forall>r obj s. raw = PyStr r \<and> strip r \<noteq> [] \<and>
        extract_first_json_value dec raw = Inr obj \<and>
        sanitize_links_call frames obj = Inr (sanitize_links obj) \<and>
        enc (sanitize_links obj) = Inr s \<longrightarrow>
      sanitize_json_str dec enc frames raw = PyStr s) \<and>
   (sanitize_json_str dec enc frames raw = raw \<or>
    (\<exists>obj s. extract_first_json_value dec raw = Inr obj \<and>
       sanitize_links_call frames obj = Inr (sanitize_links obj) \<and>
       enc (sanitize_links obj) = Inr s \<and>
       sanitize_json_str dec enc frames raw = PyStr s)) \<and>
   sanitize_json_str json_raw_decode (json_dumps_compact float_repr) frames
     (PyStr (str ''not json at all'')) = PyStr (str ''not json at all'')\<close>
proof -
  have 1: \<open>extract_first_json_value json_raw_decode (PyStr (str ''not json at all'')) =
        Inl (ValueError ''no JSON start found'')\<close>
    by code_simp
  have 2: \<open>strip (str ''not json at all'') \<noteq> []\<close>
    by code_simp
  have 3: \<open>sanitize_json_str json_raw_decode (json_dumps_compact float_repr) frames
             (PyStr (str ''not json at all'')) = PyStr (str ''not json at all'')\<close>
    using 1 2 by (simp add: sanitize_json_str_def sanitize_attempt_def)
  have 4: \<open>sanitize_json_str dec enc frames raw = raw \<or>
    (\<exists>obj s. extract_first_json_value dec raw = Inr obj \<and>
       sanitize_links_call frames obj = Inr (sanitize_links obj) \<and>
       enc (sanitize_links obj) = Inr s \<and>
       sanitize_json_str dec enc frames raw = PyStr s)\<close>
  proof (cases raw)
    case (PyOther x)
    then show ?thesis by (simp add: sanitize_json_str_def)
  next
    case (PyStr r)
    show ?thesis
    proof (cases \<open>extract_first_json_value dec raw\<close>)
      case (Inl e)
      with PyStr show ?thesis by (simp add: sanitize_json_str_def sanitize_attempt_def)
    next
      case obj: (Inr obj)
      show ?thesis
      proof (cases \<open>sanitize_links_call frames obj\<close>)
        case (Inl e)
        with PyStr obj show ?thesis by (simp add: sanitize_json_str_def sanitize_attempt_def)
      next
        case (Inr obj')
        then have v: \<open>obj' = sanitize_links obj\<close> by (rule sanitize_links_call_value(1))
        show ?thesis
        proof (cases \<open>enc obj'\<close>)
          case (Inl e)
          with PyStr obj Inr show ?thesis by (simp add: sanitize_json_str_def sanitize_attempt_def)
        next
          case s: (Inr s)
          show ?thesis
          proof (cases \<open>strip r = []\<close>)
            case True
            with PyStr show ?thesis by (simp add: sanitize_json_str_def)
          next
            case False
            with PyStr obj Inr s have \<open>sanitize_json_str dec enc frames raw = PyStr s\<close>
              by (simp add: sanitize_json_str_def sanitize_attempt_def)
            with obj Inr s v show ?thesis by auto
          qed
        qed
      qed
    qed
  qed
  have 5: \<open>\<forall>e. extract_first_json_value dec raw = Inl e \<longrightarrow>
      sanitize_json_str dec enc frames raw = raw\<close>
    by (cases raw) (auto simp: sanitize_json_str_def sanitize_attempt_def)
  have 6: \<open>\<forall>obj e. extract_first_json_value dec raw = Inr obj \<and>
        sanitize_links_call frames obj = Inl e \<longrightarrow>
      sanitize_json_str dec enc frames raw = raw\<close>
    by (cases raw) (auto simp: sanitize_json_str_def sanitize_attempt_def)
  have 7: \<open>\<forall>obj e. extract_first_json_value dec raw = Inr obj \<and>
        sanitize_links_call frames obj = Inr (sanitize_links obj) \<and>
        enc (sanitize_links obj) = Inl e \<longrightarrow>
      sanitize_json_str dec enc frames raw = raw\<close>
    by (cases raw) (auto simp: sanitize_json_str_def sanitize_attempt_def)
  have 8: \<open>(\<forall>x. raw = PyOther x \<longrightarrow> sanitize_json_str dec enc frames raw = raw) \<and>
   (\<forall>r. raw = PyStr r \<and> strip r = [] \<longrightarrow> sanitize_json_str dec enc frames raw = raw)\<close>
    by (auto simp: sanitize_json_str_def)
  have 9: \<open>\<forall>r obj s. raw = PyStr r \<and> strip r \<noteq> [] \<and>
        extract_first_json_value dec raw = Inr obj \<and>
        sanitize_links_call frames obj = Inr (sanitize_links obj) \<and>
        enc (sanitize_links obj) = Inr s \<longrightarrow>
      sanitize_json_str dec enc frames raw = PyStr s\<close>
    by (auto simp: sanitize_json_str_def sanitize_attempt_def)
  from 3 4 5 6 7 8 9 show ?thesis by blast
qed

theorem sanitize_json_str_fail_open_witness:
  \<open>sanitize_json_str json_raw_decode (json_dumps_compact id) 1000 (PyOther 5) = PyOther 5 \<and>
   strip (str ''  '') = [] \<and> strip (str ''[ [ [1] ] ]'') \<noteq> [] \<and>
   sanitize_json_str json_raw_decode (json_dumps_compact id) 1000 (PyStr (str ''  '')) =
     PyStr (str ''  '') \<and>
   extract_first_json_value json_raw_decode (PyStr (str ''{"a": 1'')) =
     Inl (JSONDecodeError ''Expecting , delimiter'') \<and>
   sanitize_json_str json_raw_decode (json_dumps_compact id) 1000 (PyStr (str ''{"a": 1'')) =
     PyStr (str ''{"a": 1'') \<and>
   extract_first_json_value json_raw_decode (PyStr (str ''[ [ [1] ] ]'')) =
     Inr (JArray [JArray [JArray [JInt 1]]]) \<and>
   json_dumps_compact id (JArray [JArray [JArray [JInt 1]]]) = Inr (str ''[[[1]]]'') \<and>
   sanitize_links_call 3 (JArray [JArray [JArray [JInt 1 :: pyfloat json]]]) = Inl RecursionError \<and>
   sanitize_json_str json_raw_decode (json_dumps_compact id) 3 (PyStr (str ''[ [ [1] ] ]'')) =
     PyStr (str ''[ [ [1] ] ]'') \<and>
   sanitize_links_call 4 (JArray [JArray [JArray [JInt 1 :: pyfloat json]]]) =
     Inr (sanitize_links (JArray [JArray [JArray [JInt 1]]])) \<and>
   sanitize_json_str json_raw_decode (\<lambda>obj. Inl (OtherError ''MemoryError'')) 4
     (PyStr (str ''[ [ [1] ] ]'')) = PyStr (str ''[ [ [1] ] ]'') \<and>
   sanitize_json_str json_raw_decode (json_dumps_compact id) 4 (PyStr (str ''[ [ [1] ] ]'')) =
     PyStr (str ''[[[1]]]'')\<close>
proof -
  let ?dec = json_raw_decode and ?enc = \<open>json_dumps_compact id\<close>
  let ?deep = \<open>JArray [JArray [JArray [JInt 1 :: pyfloat json]]]\<close>
  let ?raw = \<open>PyStr (str ''[ [ [1] ] ]'')\<close>
  have a: \<open>strip (str ''  '') = []\<close> by code_simp
  have b: \<open>extract_first_json_value ?dec (PyStr (str ''{"a": 1'')) =
     Inl (JSONDecodeError ''Expecting , delimiter'')\<close>
    by code_simp
  have c: \<open>extract_first_json_value ?dec ?raw = Inr ?deep\<close>
    by code_simp
  have d: \<open>?enc ?deep = Inr (str ''[[[1]]]'')\<close>
    by code_simp
  have f3: \<open>sanitize_links_call 3 ?deep = Inl RecursionError\<close>
    by (simp add: numeral_3_eq_3)
  have f4: \<open>sanitize_links_call 4 ?deep = Inr (sanitize_links ?deep)\<close>
    by (simp add: numeral_eq_Suc)
  have v: \<open>sanitize_links ?deep = ?deep\<close>
    by simp
  have ne: \<open>strip (str ''[ [ [1] ] ]'') \<noteq> []\<close>
    by code_simp
  from sanitize_json_str_fail_open [of \<open>PyOther 5\<close> ?dec ?enc 1000]
  have 1: \<open>sanitize_json_str ?dec ?enc 1000 (PyOther 5) = PyOther 5\<close> by blast
  from sanitize_json_str_fail_open [of \<open>PyStr (str ''  '')\<close> ?dec ?enc 1000] a
  have 2: \<open>sanitize_json_str ?dec ?enc 1000 (PyStr (str ''  '')) = PyStr (str ''  '')\<close>
    by blast
  from sanitize_json_str_fail_open [of \<open>PyStr (str ''{"a": 1'')\<close> ?dec ?enc 1000] b
  have 3: \<open>sanitize_json_str ?dec ?enc 1000 (PyStr (str ''{"a": 1'')) = PyStr (str ''{"a": 1'')\<close>
    by blast
  from sanitize_json_str_fail_open [of ?raw ?dec ?enc 3] c f3
  have 4: \<open>sanitize_json_str ?dec ?enc 3 ?raw = ?raw\<close>
    by blast
  from sanitize_json_str_fail_open [of ?raw ?dec \<open>\<lambda>obj. Inl (OtherError ''MemoryError'')\<close> 4] c f4
  have 5: \<open>sanitize_json_str ?dec (\<lambda>obj. Inl (OtherError ''MemoryError'')) 4 ?raw = ?raw\<close>
    by blast
  from sanitize_json_str_fail_open [of ?raw ?dec ?enc 4] c f4 d v ne
  have 6: \<open>sanitize_json_str ?dec ?enc 4 ?raw = PyStr (str ''[[[1]]]'')\<close>
    by simp
  from a ne b c d f3 f4 1 2 3 4 5 6 show ?thesis by blast
qed

text \<open>
  C6. Sanitising twice is not sanitising once: of the url \<open>https://example.com/a. )\<close>
  the first pass removes the parenthesis and then the space, and leaves the full
  stop that the second pass removes.
\<close>

theorem sanitize_json_str_twice_differs:
  \<open>json_dumps id (JObject [(str ''url'', JString (str ''https://example.com/a. )''))]) =
     str ''{"url":"https://example.com/a. )"}'' \<and>
   sanitize_json_str json_raw_decode (json_dumps_compact id) 1000
     (PyStr (str ''{"url":"https://example.com/a. )"}'')) =
     PyStr (str ''{"url":"https://example.com/a."}'') \<and>
   sanitize_json_str json_raw_decode (json_dumps_compact id) 1000
     (sanitize_json_str json_raw_decode (json_dumps_compact id) 1000
       (PyStr (str ''{"url":"https://example.com/a. )"}''))) =
     PyStr (str ''{"url":"https://example.com/a"}'') \<and>
   normalize_url (Some (str ''https://example.com/a. )'')) = str ''https://example.com/a.'' \<and>
   normalize_url (Some (str ''https://example.com/a.'')) = str ''https://example.com/a''\<close>
  by code_simp

section \<open>Properties of the hooks\<close>

text \<open>
  C9. Each hook leaves the agent and the keys of the state as they are and changes
  at most one value: \<open>after_agent_sanitize_json\<close> the string under the agent's
  \<open>output_key\<close>, which becomes its \<open>sanitize_json_str\<close>;
  \<open>after_agent_trim_final_summary\<close> the string under \<open>final_summary\<close>, which becomes
  its \<open>strip\<close>. Where that key is missing or holds no string, and where there is no
  state, the context comes back as it was.
\<close>

theorem hooks_change_own_key_only:
  \<open>agent (after_agent_sanitize_json dec enc frames ctx) = agent ctx \<and>
   (state ctx = None \<longrightarrow> after_agent_sanitize_json dec enc frames ctx = ctx) \<and>
   (\<forall>st. state ctx = Some st \<longrightarrow>
      (\<exists>st'. state (after_agent_sanitize_json dec enc frames ctx) = Some st' \<and> dom st' = dom st \<and>
         (\<forall>k. (\<forall>ag. agent ctx = Some ag \<longrightarrow> output_key ag \<noteq> Some k) \<longrightarrow> st' k = st k) \<and>
         (\<forall>ag k raw. agent ctx = Some ag \<and> output_key ag = Some k \<and> k \<noteq> [] \<and>
              st k = Some (PyStr raw) \<longrightarrow>
              st' k = Some (sanitize_json_str dec enc frames (PyStr raw))) \<and>
         (\<forall>ag k. agent ctx = Some ag \<and> output_key ag = Some k \<and>
              (st k = None \<or> (\<exists>x. st k = Some (PyOther x))) \<longrightarrow>
              after_agent_sanitize_json dec enc frames ctx = ctx))) \<and>
   agent (after_agent_trim_final_summary ctx) = agent ctx \<and>
   (state ctx = None \<longrightarrow> after_agent_trim_final_summary ctx = ctx) \<and>
   (\<forall>st. state ctx = Some st \<longrightarrow>
      (\<exists>st'. state (after_agent_trim_final_summary ctx) = Some st' \<and> dom st' = dom st \<and>
         (\<forall>k. k \<noteq> str ''final_summary'' \<longrightarrow> st' k = st k) \<and>
         (\<forall>fs. st (str ''final_summary'') = Some (PyStr fs) \<longrightarrow>
              st' (str ''final_summary'') = Some (PyStr (strip fs))) \<and>
         (st (str ''final_summary'') = None \<or> (\<exists>x. st (str ''final_summary'') = Some (PyOther x)) \<longrightarrow>
              after_agent_trim_final_summary ctx = ctx)))\<close>
proof -
  have a: \<open>agent (after_agent_sanitize_json dec enc frames ctx) = agent ctx\<close>
    by (simp add: after_agent_sanitize_json_def split: option.splits pyval.splits)
  have b: \<open>state ctx = None \<longrightarrow> after_agent_sanitize_json dec enc frames ctx = ctx\<close>
    by (simp add: after_agent_sanitize_json_def split: option.splits)
  have c: \<open>\<exists>st'. state (after_agent_sanitize_json dec enc frames ctx) = Some st' \<and> dom st' = dom st \<and>
         (\<forall>k. (\<forall>ag. agent ctx = Some ag \<longrightarrow> output_key ag \<noteq> Some k) \<longrightarrow> st' k = st k) \<and>
         (\<forall>ag k raw. agent ctx = Some ag \<and> output_key ag = Some k \<and> k \<noteq> [] \<and>
              st k = Some (PyStr raw) \<longrightarrow>
              st' k = Some (sanitize_json_str dec enc frames (PyStr raw))) \<and>
         (\<forall>ag k. agent ctx = Some ag \<and> output_key ag = Some k \<and>
              (st k = None \<or> (\<exists>x. st k = Some (PyOther x))) \<longrightarrow>
              after_agent_sanitize_json dec enc frames ctx = ctx)\<close>
    if s: \<open>state ctx = Some st\<close> for st
  proof (cases \<open>agent ctx\<close>)
    case None
    with s show ?thesis by (simp add: after_agent_sanitize_json_def)
  next
    case (Some ag)
    show ?thesis
    proof (cases \<open>output_key ag\<close>)
      case None
      with s Some show ?thesis by (simp add: after_agent_sanitize_json_def)
    next
      case key: (Some key)
      show ?thesis
      proof (cases \<open>st key\<close>)
        case None
        with s Some key show ?thesis by (simp add: after_agent_sanitize_json_def)
      next
        case v: (Some v)
        show ?thesis
        proof (cases v)
          case (PyOther x)
          with s Some key v show ?thesis by (simp add: after_agent_sanitize_json_def)
        next
          case (PyStr raw)
          show ?thesis
          proof (cases \<open>key = []\<close>)
            case True
            with s Some key v PyStr show ?thesis by (simp add: after_agent_sanitize_json_def)
          next
            case False
            with s Some key v PyStr
            have \<open>state (after_agent_sanitize_json dec enc frames ctx) =
                  Some (st(key \<mapsto> sanitize_json_str dec enc frames (PyStr raw)))\<close>
              by (simp add: after_agent_sanitize_json_def)
            moreover have \<open>dom (st(key \<mapsto> sanitize_json_str dec enc frames (PyStr raw))) = dom st\<close>
              using v by auto
            ultimately show ?thesis using Some key v PyStr by auto
          qed
        qed
      qed
    qed
  qed
  have d: \<open>agent (after_agent_trim_final_summary ctx) = agent ctx\<close>
    by (simp add: after_agent_trim_final_summary_def split: option.splits pyval.splits)
  have e: \<open>state ctx = None \<longrightarrow> after_agent_trim_final_summary ctx = ctx\<close>
    by (simp add: after_agent_trim_final_summary_def)
  have f: \<open>\<exists>st'. state (after_agent_trim_final_summary ctx) = Some st' \<and> dom st' = dom st \<and>
         (\<forall>k. k \<noteq> str ''final_summary'' \<longrightarrow> st' k = st k) \<and>
         (\<forall>fs. st (str ''final_summary'') = Some (PyStr fs) \<longrightarrow>
              st' (str ''final_summary'') = Some (PyStr (strip fs))) \<and>
         (st (str ''final_summary'') = None \<or> (\<exists>x. st (str ''final_summary'') = Some (PyOther x)) \<longrightarrow>
              after_agent_trim_final_summary ctx = ctx)\<close>
    if s: \<open>state ctx = Some st\<close> for st
  proof (cases \<open>st (str ''final_summary'')\<close>)
    case None
    with s show ?thesis by (simp add: after_agent_trim_final_summary_def)
  next
    case v: (Some v)
    show ?thesis
    proof (cases v)
      case (PyOther x)
      with s v show ?thesis by (simp add: after_agent_trim_final_summary_def)
    next
      case (PyStr fs)
      with s v
      have \<open>state (after_agent_trim_final_summary ctx) =
            Some (st(str ''final_summary'' \<mapsto> PyStr (strip fs)))\<close>
        by (simp add: after_agent_trim_final_summary_def)
      moreover have \<open>dom (st(str ''final_summary'' \<mapsto> PyStr (strip fs))) = dom st\<close>
        using v by auto
      ultimately show ?thesis using v PyStr by auto
    qed
  qed
  from a b c d e f show ?thesis by blast
qed

theorem hooks_change_own_key_only_witness:
  \<open>(\<exists>st'. state (after_agent_sanitize_json json_raw_decode (json_dumps_compact id) 1000
        \<lparr>agent = Some \<lparr>output_key = Some (str ''papers_result'')\<rparr>,
         state = Some [str ''plan_json'' \<mapsto> PyStr (str ''{ }''),
                       str ''papers_result'' \<mapsto> PyStr (str ''```json\<newline>{"papers": []}\<newline>```'')]\<rparr>) = Some st' \<and>
      st' (str ''plan_json'') = Some (PyStr (str ''{ }'')) \<and>
      st' (str ''papers_result'') = Some (PyStr (str ''{"papers":[]}''))) \<and>
   after_agent_sanitize_json json_raw_decode (json_dumps_compact id) 1000
        \<lparr>agent = Some \<lparr>output_key = Some (str ''papers_result'')\<rparr>,
         state = Some [str ''plan_json'' \<mapsto> PyStr (str ''{ }'')]\<rparr> =
        \<lparr>agent = Some \<lparr>output_key = Some (str ''papers_result'')\<rparr>,
         state = Some [str ''plan_json'' \<mapsto> PyStr (str ''{ }'')]\<rparr> \<and>
   (\<exists>st'. state (after_agent_trim_final_summary
        \<lparr>agent = None,
         state = Some [str ''plan_json'' \<mapsto> PyStr (str ''{ }''),
                       str ''final_summary'' \<mapsto> PyStr (str '' # Executive Summary\<newline>'')]\<rparr>) = Some st' \<and>
      st' (str ''plan_json'') = Some (PyStr (str ''{ }'')) \<and>
      st' (str ''final_summary'') = Some (PyStr (str ''# Executive Summary''))) \<and>
   after_agent_trim_final_summary \<lparr>agent = None, state = None\<rparr> = \<lparr>agent = None, state = None\<rparr>\<close>
proof -
  let ?dec = json_raw_decode and ?enc = \<open>json_dumps_compact id\<close>
  let ?ag = \<open>\<lparr>output_key = Some (str ''papers_result'')\<rparr>\<close>
  let ?raw = \<open>str ''```json\<newline>{"papers": []}\<newline>```''\<close>
  let ?st1 = \<open>[str ''plan_json'' \<mapsto> PyStr (str ''{ }''), str ''papers_result'' \<mapsto> PyStr ?raw]\<close>
  let ?st2 = \<open>[str ''plan_json'' \<mapsto> PyStr (str ''{ }'')]\<close>
  let ?fs = \<open>str '' # Executive Summary\<newline>''\<close>
  let ?st3 = \<open>[str ''plan_json'' \<mapsto> PyStr (str ''{ }''), str ''final_summary'' \<mapsto> PyStr ?fs]\<close>
  let ?c1 = \<open>\<lparr>agent = Some ?ag, state = Some ?st1\<rparr>\<close>
  let ?c2 = \<open>\<lparr>agent = Some ?ag, state = Some ?st2\<rparr>\<close>
  let ?c3 = \<open>\<lparr>agent = None, state = Some ?st3\<rparr>\<close>
  let ?c4 = \<open>\<lparr>agent = None, state = None\<rparr> :: callback_context\<close>
  have ne: \<open>str ''papers_result'' \<noteq> str ''plan_json''\<close> \<open>str ''papers_result'' \<noteq> []\<close>
    \<open>str ''plan_json'' \<noteq> str ''final_summary''\<close>
    by (simp_all add: str_def)
  have san: \<open>sanitize_json_str ?dec ?enc 1000 (PyStr ?raw) = PyStr (str ''{"papers":[]}'')\<close>
    by code_simp
  have tr: \<open>strip ?fs = str ''# Executive Summary''\<close>
    by code_simp
  have 1: \<open>\<exists>st'. state (after_agent_sanitize_json ?dec ?enc 1000 ?c1) = Some st' \<and>
      st' (str ''plan_json'') = Some (PyStr (str ''{ }'')) \<and>
      st' (str ''papers_result'') = Some (PyStr (str ''{"papers":[]}''))\<close>
  proof -
    from hooks_change_own_key_only [of ?dec ?enc 1000 ?c1]
    obtain st' where s: \<open>state (after_agent_sanitize_json ?dec ?enc 1000 ?c1) = Some st'\<close>
      and o: \<open>\<forall>k. (\<forall>ag. agent ?c1 = Some ag \<longrightarrow> output_key ag \<noteq> Some k) \<longrightarrow> st' k = ?st1 k\<close>
      and k: \<open>\<forall>ag k raw. agent ?c1 = Some ag \<and> output_key ag = Some k \<and> k \<noteq> [] \<and>
              ?st1 k = Some (PyStr raw) \<longrightarrow> st' k = Some (sanitize_json_str ?dec ?enc 1000 (PyStr raw))\<close>
      by (auto simp del: fun_upd_apply)
    from o ne have \<open>st' (str ''plan_json'') = Some (PyStr (str ''{ }''))\<close>
      by simp
    moreover from k ne have \<open>st' (str ''papers_result'') = Some (sanitize_json_str ?dec ?enc 1000 (PyStr ?raw))\<close>
      by simp
    ultimately show ?thesis using s san by simp
  qed
  have 2: \<open>after_agent_sanitize_json ?dec ?enc 1000 ?c2 = ?c2\<close>
    using hooks_change_own_key_only [of ?dec ?enc 1000 ?c2] ne by auto
  have 3: \<open>\<exists>st'. state (after_agent_trim_final_summary ?c3) = Some st' \<and>
      st' (str ''plan_json'') = Some (PyStr (str ''{ }'')) \<and>
      st' (str ''final_summary'') = Some (PyStr (str ''# Executive Summary''))\<close>
  proof -
    from hooks_change_own_key_only [of ?dec ?enc 1000 ?c3]
    obtain st' where s: \<open>state (after_agent_trim_final_summary ?c3) = Some st'\<close>
      and o: \<open>\<forall>k. k \<noteq> str ''final_summary'' \<longrightarrow> st' k = ?st3 k\<close>
      and k: \<open>\<forall>fs. ?st3 (str ''final_summary'') = Some (PyStr fs) \<longrightarrow>
              st' (str ''final_summary'') = Some (PyStr (strip fs))\<close>
      by (auto simp del: fun_upd_apply)
    from o ne have \<open>st' (str ''plan_json'') = Some (PyStr (str ''{ }''))\<close>
      by simp
    moreover from k have \<open>st' (str ''final_summary'') = Some (PyStr (strip ?fs))\<close>
      by simp
    ultimately show ?thesis using s tr by simp
  qed
  have 4: \<open>after_agent_trim_final_summary ?c4 = ?c4\<close>
    using hooks_change_own_key_only [of ?dec ?enc 1000 ?c4] by simp
  from 1 2 3 4 show ?thesis by blast
qed

section \<open>The order of datetimes is the order of their instants\<close>

lemma time_of_day_bounds:
  assumes "valid_datetime now"
  shows "0 \<le> instant now - toordinal now * day_us"
    and "instant now - toordinal now * day_us < day_us"
proof -
  from assms have h: "0 \<le> hour now" "hour now \<le> 23" and m: "0 \<le> minute now" "minute now \<le> 59"
    and s: "0 \<le> second now" "second now \<le> 59"
    and u: "0 \<le> microsecond now" "microsecond now \<le> 999999"
    by (simp_all add: valid_datetime_def)
  define secs where "secs = (hour now * 60 + minute now) * 60 + second now"
  from h m s have "0 \<le> secs" "secs \<le> 86399"
    by (simp_all add: secs_def)
  with u have "0 \<le> secs * 1000000 + microsecond now" "secs * 1000000 + microsecond now < 86400000000"
    by simp_all
  then show "0 \<le> instant now - toordinal now * day_us"
    and "instant now - toordinal now * day_us < day_us"
    by (simp_all add: instant_def day_us_def secs_def)
qed

lemma div_step:
  fixes y k :: int
  assumes "0 < k"
  shows "y div k = (y - 1) div k + (if y mod k = 0 then 1 else 0)"
proof -
  define q where "q = (y - 1) div k"
  define r where "r = (y - 1) mod k"
  have y: "y = k * q + (r + 1)" by (simp add: q_def r_def)
  from assms have r: "0 \<le> r" "r < k" by (simp_all add: r_def)
  show ?thesis
  proof (cases "r + 1 = k")
    case True
    with y have y': "y = k * (q + 1) + 0" by (simp add: algebra_simps)
    have z: "(0 :: int) \<le> 0" by simp
    from y' z assms have "y div k = q + 1" by (rule int_div_pos_eq)
    moreover from y' z assms have "y mod k = 0" by (rule int_mod_pos_eq)
    ultimately show ?thesis by (simp add: q_def)
  next
    case False
    with r have r': "0 \<le> r + 1" "r + 1 < k" by simp_all
    from y r' have "y div k = q" by (rule int_div_pos_eq)
    moreover from y r' have "y mod k = r + 1" by (rule int_mod_pos_eq)
    ultimately show ?thesis using r by (simp add: q_def)
  qed
qed

lemma leap_indicator:
  "(if (y :: int) mod 4 = 0 then 1 else 0) - (if y mod 100 = 0 then 1 else 0) +
   (if y mod 400 = 0 then 1 else 0) = (if is_leap y then 1 else (0 :: int))"
proof -
  have a: "y mod 100 = 0" if "y mod 400 = 0"
  proof -
    from that have "400 dvd y" by (simp only: mod_eq_0_iff_dvd)
    moreover have "(100 :: int) dvd 400" by simp
    ultimately have "100 dvd y" by (rule dvd_trans [rotated])
    then show ?thesis by (simp only: mod_eq_0_iff_dvd)
  qed
  have b: "y mod 4 = 0" if "y mod 100 = 0"
  proof -
    from that have "100 dvd y" by (simp only: mod_eq_0_iff_dvd)
    moreover have "(4 :: int) dvd 100" by simp
    ultimately have "4 dvd y" by (rule dvd_trans [rotated])
    then show ?thesis by (simp only: mod_eq_0_iff_dvd)
  qed
  show ?thesis
  proof (cases "y mod 400 = 0")
    case True
    with a b show ?thesis by (simp add: is_leap_def)
  next
    case f: False
    show ?thesis
    proof (cases "y mod 100 = 0")
      case True
      with f b show ?thesis by (simp add: is_leap_def)
    next
      case False
      with f show ?thesis by (simp add: is_leap_def)
    qed
  qed
qed

lemma days_before_year_step:
  "days_before_year (y + 1) = days_before_year y + (if is_leap y then 366 else 365)"
proof -
  have 4: "y div 4 = (y - 1) div 4 + (if y mod 4 = 0 then 1 else 0)"
    by (rule div_step) simp
  have 100: "y div 100 = (y - 1) div 100 + (if y mod 100 = 0 then 1 else 0)"
    by (rule div_step) simp
  have 400: "y div 400 = (y - 1) div 400 + (if y mod 400 = 0 then 1 else 0)"
    by (rule div_step) simp
  have "days_before_year (y + 1) = y * 365 + y div 4 - y div 100 + y div 400"
    by (simp add: days_before_year_def)
  also have "\<dots> = days_before_year y + 365 +
      ((if y mod 4 = 0 then 1 else 0) - (if y mod 100 = 0 then 1 else 0) +
       (if y mod 400 = 0 then 1 else 0))"
    unfolding days_before_year_def 4 100 400 by (simp only: algebra_simps)
  also have "\<dots> = days_before_year y + (if is_leap y then 366 else 365)"
    unfolding leap_indicator by simp
  finally show ?thesis .
qed

lemma days_before_year_mono: "y1 \<le> y2 \<Longrightarrow> days_before_year y1 \<le> days_before_year y2"
proof (induction y2 rule: int_ge_induct)
  case base
  then show ?case by simp
next
  case (step i)
  have "days_before_year i \<le> days_before_year (i + 1)"
    by (simp add: days_before_year_step)
  with step show ?case by simp
qed

lemma month_cases:
  "1 \<le> m \<Longrightarrow> m \<le> 12 \<Longrightarrow>
   m = 1 \<or> m = 2 \<or> m = 3 \<or> m = 4 \<or> m = 5 \<or> m = 6 \<or> m = 7 \<or> m = 8 \<or> m = 9 \<or>
   m = 10 \<or> m = 11 \<or> m = (12 :: int)"
  by arith

lemma days_before_month_step:
  assumes "1 \<le> m" "m < 12"
  shows "days_before_month y (m + 1) = days_before_month y m + days_in_month y m"
proof -
  from assms have "m = 1 \<or> m = 2 \<or> m = 3 \<or> m = 4 \<or> m = 5 \<or> m = 6 \<or> m = 7 \<or> m = 8 \<or> m = 9 \<or>
   m = 10 \<or> m = 11"
    by arith
  then show ?thesis
    by (elim disjE) (simp_all add: days_before_month_def days_in_month_def)
qed

lemma days_in_month_pos:
  assumes "1 \<le> m" "m \<le> 12"
  shows "28 \<le> days_in_month y m"
proof -
  from month_cases [OF assms] show ?thesis
    by (elim disjE) (simp_all add: days_in_month_def)
qed

lemma days_before_month_mono:
  assumes "m1 \<le> m2" "1 \<le> m1" "m2 \<le> 12"
  shows "days_before_month y m1 \<le> days_before_month y m2"
  using assms
proof (induction m2 rule: int_ge_induct)
  case base
  then show ?case by simp
next
  case (step i)
  then have "days_before_month y (i + 1) = days_before_month y i + days_in_month y i"
    by (simp add: days_before_month_step)
  moreover from step have "28 \<le> days_in_month y i"
    by (simp add: days_in_month_pos)
  ultimately show ?case using step by simp
qed

lemma days_before_month_bounds:
  assumes "1 \<le> m" "m \<le> 12"
  shows "0 \<le> days_before_month y m"
    and "days_before_month y m + days_in_month y m \<le> (if is_leap y then 366 else 365)"
proof -
  from month_cases [OF assms] show "0 \<le> days_before_month y m"
    by (elim disjE) (simp_all add: days_before_month_def)
  from month_cases [OF assms]
  show "days_before_month y m + days_in_month y m \<le> (if is_leap y then 366 else 365)"
    by (elim disjE) (simp_all add: days_before_month_def days_in_month_def)
qed

text \<open>Later dates have greater ordinals.\<close>

lemma ymd2ord_less_month:
  assumes "1 \<le> m1" "m1 < m2" "m2 \<le> 12" "d1 \<le> days_in_month y m1" "1 \<le> d2"
  shows "ymd2ord y m1 d1 < ymd2ord y m2 d2"
proof -
  from assms have "days_before_month y m1 + d1 \<le> days_before_month y (m1 + 1)"
    by (simp add: days_before_month_step)
  also from assms have "\<dots> \<le> days_before_month y m2"
    by (intro days_before_month_mono) simp_all
  finally show ?thesis using assms(5) by (simp add: ymd2ord_def)
qed

lemma ymd2ord_less_year:
  assumes "y1 < y2" "1 \<le> m1" "m1 \<le> 12" "d1 \<le> days_in_month y1 m1"
    and "1 \<le> m2" "m2 \<le> 12" "1 \<le> d2"
  shows "ymd2ord y1 m1 d1 < ymd2ord y2 m2 d2"
proof -
  from assms have "ymd2ord y1 m1 d1 \<le> days_before_year y1 + (if is_leap y1 then 366 else 365)"
    using days_before_month_bounds(2) [of m1 y1] by (simp add: ymd2ord_def)
  also have "\<dots> = days_before_year (y1 + 1)"
    by (simp add: days_before_year_step)
  also from assms(1) have "\<dots> \<le> days_before_year y2"
    by (intro days_before_year_mono) simp
  also from assms have "\<dots> < ymd2ord y2 m2 d2"
    using days_before_month_bounds(1) [of m2 y2] by (simp add: ymd2ord_def)
  finally show ?thesis .
qed

lemma toordinal_less:
  assumes "valid_datetime a" "valid_datetime b" "date_less a b"
  shows "toordinal a < toordinal b"
proof -
  from assms(1,2) have v: "1 \<le> month a" "month a \<le> 12" "1 \<le> day a"
    "day a \<le> days_in_month (year a) (month a)"
    "1 \<le> month b" "month b \<le> 12" "1 \<le> day b"
    by (simp_all add: valid_datetime_def)
  from assms(3) consider "year a < year b" | "year a = year b" "month a < month b"
    | "year a = year b" "month a = month b" "day a < day b"
    by (auto simp: date_less_def)
  then show ?thesis
  proof cases
    case 1
    with v show ?thesis unfolding toordinal_def by (intro ymd2ord_less_year) simp_all
  next
    case 2
    with v show ?thesis unfolding toordinal_def by (simp add: ymd2ord_less_month)
  next
    case 3
    then show ?thesis by (simp add: toordinal_def ymd2ord_def)
  qed
qed

lemma toordinal_order:
  assumes "valid_datetime a" "valid_datetime b"
  shows "toordinal a < toordinal b \<longleftrightarrow> date_less a b"
    and "toordinal a = toordinal b \<longleftrightarrow> year a = year b \<and> month a = month b \<and> day a = day b"
proof -
  have tri: "date_less a b \<or> date_less b a \<or> (year a = year b \<and> month a = month b \<and> day a = day b)"
    by (auto simp: date_less_def)
  have eq: "toordinal a = toordinal b" if "year a = year b \<and> month a = month b \<and> day a = day b"
    using that by (simp add: toordinal_def)
  have ab: "toordinal a < toordinal b" if "date_less a b"
    using assms that by (rule toordinal_less)
  have ba: "toordinal b < toordinal a" if "date_less b a"
    using assms(2,1) that by (rule toordinal_less)
  show "toordinal a < toordinal b \<longleftrightarrow> date_less a b"
  proof
    assume l: "toordinal a < toordinal b"
    from tri show "date_less a b"
    proof (elim disjE)
      assume "date_less b a"
      with ba l show ?thesis by simp
    next
      assume "year a = year b \<and> month a = month b \<and> day a = day b"
      with eq l show ?thesis by simp
    qed
  next
    assume "date_less a b"
    then show "toordinal a < toordinal b" by (rule ab)
  qed
  show "toordinal a = toordinal b \<longleftrightarrow> year a = year b \<and> month a = month b \<and> day a = day b"
  proof
    assume e: "toordinal a = toordinal b"
    from tri show "year a = year b \<and> month a = month b \<and> day a = day b"
    proof (elim disjE)
      assume "date_less a b"
      with ab e show ?thesis by simp
    next
      assume "date_less b a"
      with ba e show ?thesis by simp
    qed
  next
    assume "year a = year b \<and> month a = month b \<and> day a = day b"
    then show "toordinal a = toordinal b" by (rule eq)
  qed
qed

lemma lex_step:
  fixes q1 q2 r1 r2 B :: int
  assumes "0 \<le> r1" "r1 < B" "0 \<le> r2" "r2 < B"
  shows "q1 * B + r1 < q2 * B + r2 \<longleftrightarrow> q1 < q2 \<or> (q1 = q2 \<and> r1 < r2)"
proof -
  from assms have B: "0 \<le> B" by simp
  have up: "x * B + B \<le> y * B" if "x < y" for x y :: int
  proof -
    from that have "x + 1 \<le> y" by simp
    then have "(x + 1) * B \<le> y * B" using B by (rule mult_right_mono)
    then show ?thesis by (simp add: algebra_simps)
  qed
  show ?thesis
  proof (cases "q1 < q2")
    case True
    with up [of q1 q2] assms show ?thesis by simp
  next
    case False
    show ?thesis
    proof (cases "q1 = q2")
      case True
      then show ?thesis by simp
    next
      case ne: False
      with False have "q2 < q1" by simp
      with up [of q2 q1] assms False ne show ?thesis by simp
    qed
  qed
qed

lemma lex_eq:
  fixes q1 q2 r1 r2 B :: int
  assumes "0 \<le> r1" "r1 < B" "0 \<le> r2" "r2 < B"
  shows "q1 * B + r1 = q2 * B + r2 \<longleftrightarrow> q1 = q2 \<and> r1 = r2"
proof -
  have 1: "\<not> q1 * B + r1 < q2 * B + r2 \<longleftrightarrow> \<not> (q1 < q2 \<or> (q1 = q2 \<and> r1 < r2))"
    using lex_step [OF assms] by simp
  have 2: "\<not> q2 * B + r2 < q1 * B + r1 \<longleftrightarrow> \<not> (q2 < q1 \<or> (q2 = q1 \<and> r2 < r1))"
    using lex_step [OF assms(3,4,1,2)] by simp
  show ?thesis
  proof
    assume e: "q1 * B + r1 = q2 * B + r2"
    with 1 have "\<not> (q1 < q2 \<or> (q1 = q2 \<and> r1 < r2))" by simp
    moreover from e 2 have "\<not> (q2 < q1 \<or> (q2 = q1 \<and> r2 < r1))" by simp
    ultimately show "q1 = q2 \<and> r1 = r2" by auto
  next
    assume "q1 = q2 \<and> r1 = r2"
    then show "q1 * B + r1 = q2 * B + r2" by simp
  qed
qed

lemma time_us_order:
  assumes "valid_datetime a" "valid_datetime b"
  shows "time_us a < time_us b \<longleftrightarrow>
     hour a < hour b \<or> (hour a = hour b \<and>
     (minute a < minute b \<or> (minute a = minute b \<and>
     (second a < second b \<or> (second a = second b \<and> microsecond a < microsecond b)))))"
proof -
  from assms have a: "0 \<le> minute a" "minute a < 60" "0 \<le> second a" "second a < 60"
    "0 \<le> microsecond a" "microsecond a < 1000000"
    and b: "0 \<le> minute b" "minute b < 60" "0 \<le> second b" "second b < 60"
    "0 \<le> microsecond b" "microsecond b < 1000000"
    by (simp_all add: valid_datetime_def)
  have "time_us a < time_us b \<longleftrightarrow>
      (hour a * 60 + minute a) * 60 + second a < (hour b * 60 + minute b) * 60 + second b \<or>
      ((hour a * 60 + minute a) * 60 + second a = (hour b * 60 + minute b) * 60 + second b \<and>
       microsecond a < microsecond b)"
    unfolding time_us_def using a(5,6) b(5,6) by (rule lex_step)
  moreover have "(hour a * 60 + minute a) * 60 + second a < (hour b * 60 + minute b) * 60 + second b \<longleftrightarrow>
      hour a * 60 + minute a < hour b * 60 + minute b \<or>
      (hour a * 60 + minute a = hour b * 60 + minute b \<and> second a < second b)"
    using a(3,4) b(3,4) by (rule lex_step)
  moreover have m: "hour a * 60 + minute a < hour b * 60 + minute b \<longleftrightarrow>
      hour a < hour b \<or> (hour a = hour b \<and> minute a < minute b)"
    using a(1,2) b(1,2) by (rule lex_step)
  moreover have "hour a * 60 + minute a = hour b * 60 + minute b \<longleftrightarrow>
      hour a = hour b \<and> minute a = minute b"
    using a(1,2) b(1,2) by (rule lex_eq)
  moreover have "(hour a * 60 + minute a) * 60 + second a = (hour b * 60 + minute b) * 60 + second b \<longleftrightarrow>
      hour a * 60 + minute a = hour b * 60 + minute b \<and> second a = second b"
    using a(3,4) b(3,4) by (rule lex_eq)
  ultimately show ?thesis by blast
qed

text \<open>
  On valid datetimes the comparison of the \<open>datetime\<close> module is the comparison of
  instants.
\<close>

lemma datetime_less_instant:
  assumes "valid_datetime a" "valid_datetime b"
  shows "datetime_less a b \<longleftrightarrow> instant a < instant b"
proof -
  have i: "instant a = toordinal a * day_us + time_us a" "instant b = toordinal b * day_us + time_us b"
    by (simp_all add: instant_def time_us_def)
  have ta: "0 \<le> time_us a" "time_us a < day_us" and tb: "0 \<le> time_us b" "time_us b < day_us"
    using time_of_day_bounds [OF assms(1)] time_of_day_bounds [OF assms(2)]
    by (simp_all add: i)
  have "instant a < instant b \<longleftrightarrow>
        toordinal a < toordinal b \<or> (toordinal a = toordinal b \<and> time_us a < time_us b)"
    unfolding i using ta tb by (rule lex_step)
  also have "\<dots> \<longleftrightarrow> datetime_less a b"
    unfolding toordinal_order [OF assms] time_us_order [OF assms]
    by (auto simp: datetime_less_def date_less_def)
  finally show ?thesis by simp
qed

section \<open>Properties of the paper search\<close>

lemma instant_midnight:
  "hour dt = 0 \<Longrightarrow> minute dt = 0 \<Longrightarrow> second dt = 0 \<Longrightarrow> microsecond dt = 0 \<Longrightarrow>
   instant dt = toordinal dt * day_us"
  by (simp add: instant_def)

lemma minus_days_instant: "minus_days now n = Inr c \<Longrightarrow> c = instant now - n * day_us"
  by (auto simp: minus_days_def split: if_splits)

lemma process_entry_dropped:
  "parse_published strptime e = Some dt \<Longrightarrow> instant dt < cutoff \<Longrightarrow>
   process_entry strptime utcnow cutoff t e = Inr (None, t)"
  by (simp add: process_entry_def)

lemma process_entry_kept:
  "parse_published strptime e = Some dt \<Longrightarrow> \<not> instant dt < cutoff \<Longrightarrow>
   author_names (entry_authors e) = Inr names \<Longrightarrow>
   \<exists>p. process_entry strptime utcnow cutoff t e = Inr (Some p, t) \<and> paper_year p = year dt"
  by (simp add: process_entry_def)

lemma process_entry_unparsed:
  "parse_published strptime e = None \<Longrightarrow> author_names (entry_authors e) = Inr names \<Longrightarrow>
   \<exists>p. process_entry strptime utcnow cutoff t e = Inr (Some p, Suc t) \<and>
        paper_year p = year (utcnow t)"
  by (simp add: process_entry_def)

text \<open>
  Where every author of every entry has a name, no entry makes the loop fail, whatever
  its date and whichever of its fields are missing.
\<close>

lemma author_names_named:
  "Author None \<notin> set as \<Longrightarrow> \<exists>names. author_names as = Inr names"
proof (induction as)
  case Nil
  then show ?case by simp
next
  case (Cons a as)
  obtain x where a: "a = Author x" by (cases a)
  with Cons.prems obtain n where "x = Some n" by (cases x) auto
  with a Cons show ?case by auto
qed

lemma process_entry_named:
  "Author None \<notin> set (entry_authors e) \<Longrightarrow>
   \<exists>p t'. process_entry strptime utcnow cutoff t e = Inr (p, t')"
  using author_names_named [of "entry_authors e"]
  by (auto simp: process_entry_def Let_def split: option.splits prod.splits)

lemma papers_loop_named:
  "\<forall>e \<in> set es. Author None \<notin> set (entry_authors e) \<Longrightarrow>
   \<exists>ps. papers_loop strptime utcnow cutoff t es papers = Inr ps"
proof (induction es arbitrary: t papers)
  case Nil
  then show ?case by simp
next
  case (Cons e es)
  then obtain p t' where "process_entry strptime utcnow cutoff t e = Inr (p, t')"
    using process_entry_named [of e strptime utcnow cutoff t] by auto
  with Cons show ?case by (cases p) auto
qed


text \<open>
  One round of the loop drops the entry exactly when the specification does, and
  otherwise appends the record of the specification, reading the clock at most once.
\<close>

lemma spec_dropped_cutoff:
  "spec_dropped strptime now days e \<longleftrightarrow>
     (case parse_published strptime e of
        None \<Rightarrow> False
      | Some dt \<Rightarrow> instant dt < instant now - days * day_us)"
  by (simp add: spec_dropped_def parse_published_def split: sum.splits)

lemma spec_record_mono:
  "spec_record strptime utcnow lo hi e p \<Longrightarrow> lo' \<le> lo \<Longrightarrow> hi \<le> hi' \<Longrightarrow>
   spec_record strptime utcnow lo' hi' e p"
  by (auto simp: spec_record_def split: sum.splits)

lemma process_entry_spec:
  assumes "process_entry strptime utcnow (instant now - days * day_us) t e = Inr (r, t')"
  shows "(spec_dropped strptime now days e \<longrightarrow> r = None \<and> t' = t) \<and>
         (\<not> spec_dropped strptime now days e \<longrightarrow>
            (\<exists>p. r = Some p \<and> spec_record strptime utcnow t (Suc t) e p) \<and> t \<le> t' \<and> t' \<le> Suc t)"
proof (cases "parse_published strptime e")
  case None
  then have u: "\<exists>err. strptime (take 10 (get_or_empty (published e))) = Inl err"
    by (auto simp: parse_published_def split: sum.splits)
  from None have "\<not> spec_dropped strptime now days e"
    by (simp add: spec_dropped_cutoff)
  moreover from assms None u
  have "(\<exists>p. r = Some p \<and> spec_record strptime utcnow t (Suc t) e p) \<and> t' = Suc t"
    by (auto simp: process_entry_def spec_record_def split: sum.splits)
  ultimately show ?thesis by auto
next
  case (Some dt)
  then have u: "strptime (take 10 (get_or_empty (published e))) = Inr dt"
    by (auto simp: parse_published_def split: sum.splits)
  show ?thesis
  proof (cases "instant dt < instant now - days * day_us")
    case True
    with Some have "spec_dropped strptime now days e"
      by (simp add: spec_dropped_cutoff)
    moreover from assms Some True have "r = None \<and> t' = t"
      by (simp add: process_entry_def)
    ultimately show ?thesis by simp
  next
    case False
    with Some have "\<not> spec_dropped strptime now days e"
      by (simp add: spec_dropped_cutoff)
    moreover from assms Some False u
    have "(\<exists>p. r = Some p \<and> spec_record strptime utcnow t (Suc t) e p) \<and> t' = t"
      by (auto simp: process_entry_def spec_record_def split: sum.splits)
    ultimately show ?thesis by auto
  qed
qed

text \<open>
  The loop appends, in the order of the feed, the records of the entries that the
  specification keeps, and nothing else.
\<close>

lemma papers_loop_spec:
  assumes "papers_loop strptime utcnow (instant now - days * day_us) t es acc = Inr ps"
  shows "\<exists>new. ps = acc @ new \<and>
           list_all2 (spec_record strptime utcnow t (t + length es))
             (filter (\<lambda>e. \<not> spec_dropped strptime now days e) es) new"
  using assms
proof (induction es arbitrary: t acc)
  case Nil
  then show ?case by simp
next
  case (Cons e es)
  let ?c = "instant now - days * day_us"
  from Cons.prems obtain r t' where pe: "process_entry strptime utcnow ?c t e = Inr (r, t')"
    by (auto split: sum.splits)
  note sp = process_entry_spec [OF pe]
  show ?case
  proof (cases "spec_dropped strptime now days e")
    case True
    with sp have r: "r = None" "t' = t" by simp_all
    with Cons.prems pe have "papers_loop strptime utcnow ?c t es acc = Inr ps" by simp
    from Cons.IH [OF this] obtain new where n: "ps = acc @ new"
      and l: "list_all2 (spec_record strptime utcnow t (t + length es))
               (filter (\<lambda>e. \<not> spec_dropped strptime now days e) es) new"
      by blast
    from l have "list_all2 (spec_record strptime utcnow t (t + length (e # es)))
               (filter (\<lambda>e. \<not> spec_dropped strptime now days e) es) new"
      by (rule list_all2_mono) (auto intro: spec_record_mono)
    with n True show ?thesis by auto
  next
    case False
    with sp obtain p where r: "r = Some p"
      and rec: "spec_record strptime utcnow t (Suc t) e p" and t': "t \<le> t'" "t' \<le> Suc t"
      by auto
    with Cons.prems pe have "papers_loop strptime utcnow ?c t' es (acc @ [p]) = Inr ps" by simp
    from Cons.IH [OF this] obtain new where n: "ps = (acc @ [p]) @ new"
      and l: "list_all2 (spec_record strptime utcnow t' (t' + length es))
               (filter (\<lambda>e. \<not> spec_dropped strptime now days e) es) new"
      by blast
    from l t' have "list_all2 (spec_record strptime utcnow t (t + length (e # es)))
               (filter (\<lambda>e. \<not> spec_dropped strptime now days e) es) new"
      by (intro list_all2_mono [OF l]) (auto intro: spec_record_mono)
    moreover from rec have "spec_record strptime utcnow t (t + length (e # es)) e p"
      by (rule spec_record_mono) simp_all
    ultimately have "list_all2 (spec_record strptime utcnow t (t + length (e # es)))
               (filter (\<lambda>e. \<not> spec_dropped strptime now days e) (e # es)) (p # new)"
      using False by simp
    with n show ?thesis by auto
  qed
qed

text \<open>With a window of 30 days a date 31 days back is dropped and one 29 days back is kept.\<close>

lemma spec_dropped_boundary:
  assumes "valid_datetime now"
    and "strptime (take 10 (get_or_empty (published e))) = Inr dt"
    and "hour dt = 0" "minute dt = 0" "second dt = 0" "microsecond dt = 0"
  shows "toordinal dt = toordinal now - 31 \<Longrightarrow> spec_dropped strptime now 30 e"
    and "toordinal dt = toordinal now - 29 \<Longrightarrow> \<not> spec_dropped strptime now 30 e"
proof -
  from assms have i: "instant dt = toordinal dt * day_us"
    by (simp add: instant_midnight)
  {
    assume "toordinal dt = toordinal now - 31"
    with time_of_day_bounds(1) [OF assms(1)] i
    have "instant dt < instant now - 30 * day_us"
      by (simp add: day_us_def algebra_simps)
    with assms(2) show "spec_dropped strptime now 30 e"
      by (simp add: spec_dropped_def)
  }
  {
    assume "toordinal dt = toordinal now - 29"
    with time_of_day_bounds(2) [OF assms(1)] i
    have "\<not> instant dt < instant now - 30 * day_us"
      by (simp add: day_us_def algebra_simps)
    with assms(2) show "\<not> spec_dropped strptime now 30 e"
      by (simp add: spec_dropped_def)
  }
qed

lemma search_papers_func_loop:
  assumes "http_get \<lparr>search_query = str ''all:'' @ map (\<lambda>c. if c = 0x20 then 0x2B else c) query,
             start = 0, max_results = max 1 (min max_res 20)\<rparr> = Inr entries"
    and "minus_days (utcnow 0) days_back = Inr cutoff"
  shows "search_papers_func strptime utcnow http_get query days_back max_res =
           papers_loop strptime utcnow (instant (utcnow 0) - days_back * day_us) 1 entries []"
  using assms minus_days_instant [OF assms(2)]
  by (simp add: search_papers_func_def Let_def)

text \<open>
  C7. Where the request and the cutoff succeed, what \<open>search_papers_func\<close> returns
  is, in the order of the feed, one record for each entry that is not dropped, an
  entry being dropped when the first ten characters of its published date parse to
  a date earlier than \<open>utcnow()\<close> minus \<open>days_back\<close> days; the year of a record is that
  of the parsed date, or of a later reading of the clock when the date does not
  parse. It does return when every author has a name. With \<open>days_back = 30\<close> a feed
  of one entry dated 31 days before the day of \<open>utcnow()\<close> gives no paper, and one
  dated 29 days before it gives one paper.
\<close>

theorem recency_filter:
  assumes "http_get \<lparr>search_query = str ''all:'' @ map (\<lambda>c. if c = 0x20 then 0x2B else c) query,
             start = 0, max_results = max 1 (min max_res 20)\<rparr> = Inr entries"
    and "minus_days (utcnow 0) days_back = Inr cutoff"
  shows
    "(\<forall>ps. search_papers_func strptime utcnow http_get query days_back max_res = Inr ps \<longrightarrow>
        list_all2 (spec_record strptime utcnow 1 (Suc (length entries)))
          (filter (\<lambda>e. \<not> spec_dropped strptime (utcnow 0) days_back e) entries) ps) \<and>
     ((\<forall>e \<in> set entries. Author None \<notin> set (entry_authors e)) \<longrightarrow>
        (\<exists>ps. search_papers_func strptime utcnow http_get query days_back max_res = Inr ps)) \<and>
     (\<forall>e dt. days_back = 30 \<and> entries = [e] \<and> valid_datetime (utcnow 0) \<and>
        strptime (take 10 (get_or_empty (published e))) = Inr dt \<and>
        hour dt = 0 \<and> minute dt = 0 \<and> second dt = 0 \<and> microsecond dt = 0 \<and>
        toordinal dt = toordinal (utcnow 0) - 31 \<longrightarrow>
        search_papers_func strptime utcnow http_get query days_back max_res = Inr []) \<and>
     (\<forall>e dt. days_back = 30 \<and> entries = [e] \<and> valid_datetime (utcnow 0) \<and>
        strptime (take 10 (get_or_empty (published e))) = Inr dt \<and>
        hour dt = 0 \<and> minute dt = 0 \<and> second dt = 0 \<and> microsecond dt = 0 \<and>
        toordinal dt = toordinal (utcnow 0) - 29 \<and> Author None \<notin> set (entry_authors e) \<longrightarrow>
        (\<exists>p. search_papers_func strptime utcnow http_get query days_back max_res = Inr [p] \<and>
             paper_year p = year dt))"
proof -
  let ?search = "search_papers_func strptime utcnow http_get query days_back max_res"
  let ?kept = "filter (\<lambda>e. \<not> spec_dropped strptime (utcnow 0) days_back e) entries"
  have loop: "?search =
      papers_loop strptime utcnow (instant (utcnow 0) - days_back * day_us) 1 entries []"
    by (rule search_papers_func_loop) (rule assms)+
  have rel: "list_all2 (spec_record strptime utcnow 1 (Suc (length entries))) ?kept ps"
    if "?search = Inr ps" for ps
  proof -
    from that loop
    have "papers_loop strptime utcnow (instant (utcnow 0) - days_back * day_us) 1 entries [] = Inr ps"
      by simp
    from papers_loop_spec [OF this] show ?thesis by simp
  qed
  have ret: "\<exists>ps. ?search = Inr ps" if "\<forall>e \<in> set entries. Author None \<notin> set (entry_authors e)"
    using papers_loop_named [OF that] loop by simp
  have old: "?search = Inr []"
    if "days_back = 30" "entries = [e]" "valid_datetime (utcnow 0)"
      "strptime (take 10 (get_or_empty (published e))) = Inr dt"
      "hour dt = 0" "minute dt = 0" "second dt = 0" "microsecond dt = 0"
      "toordinal dt = toordinal (utcnow 0) - 31" for e dt
  proof -
    from that have d: "spec_dropped strptime (utcnow 0) days_back e"
      using spec_dropped_boundary(1) [of "utcnow 0" strptime e dt] by simp
    then have i: "instant dt < instant (utcnow 0) - days_back * day_us"
      using that(4) by (simp add: spec_dropped_def)
    from that(4) have "parse_published strptime e = Some dt"
      by (simp add: parse_published_def)
    from process_entry_dropped [OF this i]
    show ?thesis using loop that(2) by simp
  qed
  have new: "\<exists>p. ?search = Inr [p] \<and> paper_year p = year dt"
    if "days_back = 30" "entries = [e]" "valid_datetime (utcnow 0)"
      "strptime (take 10 (get_or_empty (published e))) = Inr dt"
      "hour dt = 0" "minute dt = 0" "second dt = 0" "microsecond dt = 0"
      "toordinal dt = toordinal (utcnow 0) - 29" "Author None \<notin> set (entry_authors e)" for e dt
  proof -
    from that have k: "\<not> spec_dropped strptime (utcnow 0) days_back e"
      using spec_dropped_boundary(2) [of "utcnow 0" strptime e dt] by simp
    from that(2,10) have "\<forall>e \<in> set entries. Author None \<notin> set (entry_authors e)" by simp
    from ret [OF this] obtain ps where ps: "?search = Inr ps" by blast
    from rel [OF ps] k that(2) obtain p where p: "ps = [p]"
      and r: "spec_record strptime utcnow 1 (Suc (length entries)) e p"
      by (auto simp: list_all2_Cons1)
    from r that(4) have "paper_year p = year dt"
      by (simp add: spec_record_def)
    with ps p show ?thesis by simp
  qed
  from rel ret old new show ?thesis by blast
qed

theorem recency_filter_witness:
  \<open>(\<lambda>req. Inr [\<lparr>published = Some (str ''2024-02-29T10:00:00Z''), title = Some (str '' Old ''),
                  authors = None, link = None, summary = None\<rparr>,
                \<lparr>published = Some (str ''2024-03-02T09:00:00Z''), title = Some (str '' New ''),
                  authors = Some [Author (Some (str ''Ada''))], link = Some (str ''http://arxiv.org/abs/1''),
                  summary = None\<rparr>,
                \<lparr>published = Some (str ''last week''), title = None, authors = None,
                  link = None, summary = Some (str ''s'')\<rparr>] :: error + entry list)
     \<lparr>search_query = str ''all:'' @ map (\<lambda>c. if c = 0x20 then 0x2B else c) (str ''llm agents''),
      start = 0, max_results = max 1 (min 50 20)\<rparr> =
     Inr [\<lparr>published = Some (str ''2024-02-29T10:00:00Z''), title = Some (str '' Old ''),
            authors = None, link = None, summary = None\<rparr>,
          \<lparr>published = Some (str ''2024-03-02T09:00:00Z''), title = Some (str '' New ''),
            authors = Some [Author (Some (str ''Ada''))], link = Some (str ''http://arxiv.org/abs/1''),
            summary = None\<rparr>,
          \<lparr>published = Some (str ''last week''), title = None, authors = None,
            link = None, summary = Some (str ''s'')\<rparr>] \<and>
   valid_datetime \<lparr>year = 2024, month = 3, day = 31, hour = 12, minute = 34, second = 56, microsecond = 0\<rparr> \<and>
   minus_days \<lparr>year = 2024, month = 3, day = 31, hour = 12, minute = 34, second = 56, microsecond = 0\<rparr> 30 =
     Inr 63844979696000000 \<and>
   search_papers_func strptime_ymd
     (\<lambda>k. if k = 0
          then \<lparr>year = 2024, month = 3, day = 31, hour = 12, minute = 34, second = 56, microsecond = 0\<rparr>
          else \<lparr>year = 2024, month = 3, day = 31, hour = 12, minute = 34, second = 57, microsecond = 0\<rparr>)
     (\<lambda>req. Inr [\<lparr>published = Some (str ''2024-02-29T10:00:00Z''), title = Some (str '' Old ''),
                  authors = None, link = None, summary = None\<rparr>,
                \<lparr>published = Some (str ''2024-03-02T09:00:00Z''), title = Some (str '' New ''),
                  authors = Some [Author (Some (str ''Ada''))], link = Some (str ''http://arxiv.org/abs/1''),
                  summary = None\<rparr>,
                \<lparr>published = Some (str ''last week''), title = None, authors = None,
                  link = None, summary = Some (str ''s'')\<rparr>])
     (str ''llm agents'') 30 50 =
     Inr [\<lparr>paper_title = str ''New'', paper_authors = [str ''Ada''], paper_year = 2024,
           paper_venue = str ''arXiv'', paper_url = str ''http://arxiv.org/abs/1'',
           paper_summary = []\<rparr>,
          \<lparr>paper_title = [], paper_authors = [], paper_year = 2024,
           paper_venue = str ''arXiv'', paper_url = [], paper_summary = str ''s''\<rparr>] \<and>
   search_papers_func strptime_ymd
     (\<lambda>k. \<lparr>year = 2024, month = 3, day = 31, hour = 12, minute = 34, second = 56, microsecond = 0\<rparr>)
     (\<lambda>req. Inr [\<lparr>published = Some (str ''2024-02-29T10:00:00Z''), title = Some (str '' Old ''),
                  authors = None, link = None, summary = None\<rparr>])
     (str ''llm agents'') 30 50 = Inr [] \<and>
   (\<exists>p. search_papers_func strptime_ymd
     (\<lambda>k. \<lparr>year = 2024, month = 3, day = 31, hour = 12, minute = 34, second = 56, microsecond = 0\<rparr>)
     (\<lambda>req. Inr [\<lparr>published = Some (str ''2024-03-02T09:00:00Z''), title = Some (str '' New ''),
                  authors = Some [Author (Some (str ''Ada''))], link = Some (str ''http://arxiv.org/abs/1''),
                  summary = None\<rparr>])
     (str ''llm agents'') 30 50 = Inr [p] \<and> paper_year p = 2024)\<close>
proof -
  let ?now = \<open>\<lparr>year = 2024, month = 3, day = 31, hour = 12, minute = 34, second = 56, microsecond = 0\<rparr>\<close>
  let ?later = \<open>\<lparr>year = 2024, month = 3, day = 31, hour = 12, minute = 34, second = 57, microsecond = 0\<rparr>\<close>
  let ?clock = \<open>\<lambda>k :: nat. if k = 0 then ?now else ?later\<close>
  let ?c = \<open>63844979696000000 :: int\<close>
  let ?old = \<open>\<lparr>published = Some (str ''2024-02-29T10:00:00Z''), title = Some (str '' Old ''),
      authors = None, link = None, summary = None\<rparr>\<close>
  let ?new = \<open>\<lparr>published = Some (str ''2024-03-02T09:00:00Z''), title = Some (str '' New ''),
      authors = Some [Author (Some (str ''Ada''))], link = Some (str ''http://arxiv.org/abs/1''),
      summary = None\<rparr>\<close>
  let ?bad = \<open>\<lparr>published = Some (str ''last week''), title = None, authors = None,
      link = None, summary = Some (str ''s'')\<rparr>\<close>
  let ?d_old = \<open>\<lparr>year = 2024, month = 2, day = 29, hour = 0, minute = 0, second = 0, microsecond = 0\<rparr>\<close>
  let ?d_new = \<open>\<lparr>year = 2024, month = 3, day = 2, hour = 0, minute = 0, second = 0, microsecond = 0\<rparr>\<close>
  let ?p_new = \<open>\<lparr>paper_title = str ''New'', paper_authors = [str ''Ada''], paper_year = 2024,
           paper_venue = str ''arXiv'', paper_url = str ''http://arxiv.org/abs/1'',
           paper_summary = []\<rparr>\<close>
  let ?p_bad = \<open>\<lparr>paper_title = [], paper_authors = [], paper_year = 2024,
           paper_venue = str ''arXiv'', paper_url = [], paper_summary = str ''s''\<rparr>\<close>
  let ?q = \<open>str ''llm agents''\<close>
  have v: \<open>valid_datetime ?now\<close> by code_simp
  have m: \<open>minus_days ?now 30 = Inr ?c\<close> by code_simp
  have s_old: \<open>strptime_ymd (take 10 (get_or_empty (published ?old))) = Inr ?d_old\<close> by code_simp
  have s_new: \<open>strptime_ymd (take 10 (get_or_empty (published ?new))) = Inr ?d_new\<close> by code_simp
  have o_old: \<open>toordinal ?d_old = toordinal ?now - 31\<close> by code_simp
  have o_new: \<open>toordinal ?d_new = toordinal ?now - 29\<close> by code_simp
  have named: \<open>Author None \<notin> set (entry_authors ?new)\<close>
    by (simp add: entry_authors_def)
  have all: \<open>search_papers_func strptime_ymd ?clock (\<lambda>req. Inr [?old, ?new, ?bad]) ?q 30 50 =
      Inr [?p_new, ?p_bad]\<close>
    by code_simp
  have 1: \<open>search_papers_func strptime_ymd (\<lambda>k. ?now) (\<lambda>req. Inr [?old]) ?q 30 50 = Inr []\<close>
    using recency_filter [of \<open>\<lambda>req. Inr [?old]\<close> ?q 50 \<open>[?old]\<close> \<open>\<lambda>k. ?now\<close> 30 ?c strptime_ymd]
      v m s_old o_old
    by simp
  have 2: \<open>\<exists>p. search_papers_func strptime_ymd (\<lambda>k. ?now) (\<lambda>req. Inr [?new]) ?q 30 50 = Inr [p] \<and>
      paper_year p = 2024\<close>
    using recency_filter [of \<open>\<lambda>req. Inr [?new]\<close> ?q 50 \<open>[?new]\<close> \<open>\<lambda>k. ?now\<close> 30 ?c strptime_ymd]
      v m s_new o_new named
    by simp
  from v m all 1 2 show ?thesis by simp
qed

text \<open>
  C8. An entry one of whose authors has no name makes the whole call fail: reading
  \<open>a.name\<close> raises \<open>AttributeError\<close>, which nothing catches, and the paper of the
  well-formed entry before it is lost with it. Without that entry the call returns
  the paper.
\<close>

theorem search_papers_nameless_author_fails:
  \<open>search_papers_func strptime_ymd
     (\<lambda>k. \<lparr>year = 2024, month = 3, day = 31, hour = 12, minute = 34, second = 56, microsecond = 0\<rparr>)
     (\<lambda>req. Inr [\<lparr>published = Some (str ''2024-03-02T09:00:00Z''), title = Some (str ''A''),
                   authors = Some [Author (Some (str ''Ada''))], link = Some (str ''http://arxiv.org/abs/1''),
                   summary = Some (str ''s'')\<rparr>,
                 \<lparr>published = Some (str ''2024-03-03T09:00:00Z''), title = Some (str ''B''),
                   authors = Some [Author None], link = Some (str ''http://arxiv.org/abs/2''),
                   summary = Some (str ''s'')\<rparr>])
     (str ''llm agents'') 30 5 =
     Inl (AttributeError ''object has no attribute name'') \<and>
   search_papers_func strptime_ymd
     (\<lambda>k. \<lparr>year = 2024, month = 3, day = 31, hour = 12, minute = 34, second = 56, microsecond = 0\<rparr>)
     (\<lambda>req. Inr [\<lparr>published = Some (str ''2024-03-02T09:00:00Z''), title = Some (str ''A''),
                   authors = Some [Author (Some (str ''Ada''))], link = Some (str ''http://arxiv.org/abs/1''),
                   summary = Some (str ''s'')\<rparr>])
     (str ''llm agents'') 30 5 =
     Inr [\<lparr>paper_title = str ''A'', paper_authors = [str ''Ada''], paper_year = 2024,
           paper_venue = str ''arXiv'', paper_url = str ''http://arxiv.org/abs/1'',
           paper_summary = str ''s''\<rparr>]\<close>
  by code_simp

end
